theory Spec2Isabelle
  imports Main "HOL-Library.Sublist" "HOL-Library.Char_ord" "HOL-Library.List_Lexorder"
    "HOL-Library.Product_Lexorder"
begin

section \<open>Python string operations used by the three scripts\<close>

text \<open>
  Python strings are modelled as \<^typ>\<open>string\<close>: a list of characters with code points
  below 256. Every operation below is the built-in of the same name, restricted to that
  range of code points.
\<close>

definition py_isspace :: "char \<Rightarrow> bool" where
  \<comment> \<open>the characters removed by \<open>str.strip()\<close>: tab, LF, VT, FF, CR, FS, GS, RS, US, space,
      NEL and the no-break space\<close>
  "py_isspace c = ((of_char c :: nat) \<in> {9, 10, 11, 12, 13, 28, 29, 30, 31, 32, 133, 160})"

definition py_strip :: "string \<Rightarrow> string" where
  "py_strip s = rev (dropWhile py_isspace (rev (dropWhile py_isspace s)))"

text \<open>\<open>s.split(c)\<close> for a separator of one character; the result is never empty.\<close>

fun py_split :: "char \<Rightarrow> string \<Rightarrow> string list" where
  "py_split c [] = [[]]"
| "py_split c (x # xs) =
     (if x = c then [] # py_split c xs
      else (case py_split c xs of [] \<Rightarrow> [[x]] | p # ps \<Rightarrow> (x # p) # ps))"

fun py_join :: "string \<Rightarrow> string list \<Rightarrow> string" where
  "py_join sep [] = []"
| "py_join sep [p] = p"
| "py_join sep (p # q # ps) = p @ sep @ py_join sep (q # ps)"

definition py_isdigit_char :: "char \<Rightarrow> bool" where
  \<comment> \<open>\<open>0\<close> to \<open>9\<close> and the superscript digits two, three and one\<close>
  "py_isdigit_char c = ((48 \<le> (of_char c :: nat) \<and> (of_char c :: nat) \<le> 57)
     \<or> (of_char c :: nat) \<in> {178, 179, 185})"

definition py_isdigit :: "string \<Rightarrow> bool" where
  "py_isdigit s = (s \<noteq> [] \<and> list_all py_isdigit_char s)"

text \<open>\<open>sub in s\<close> on strings.\<close>

fun py_contains :: "string \<Rightarrow> string \<Rightarrow> bool" where
  "py_contains sub [] = (sub = [])"
| "py_contains sub (x # xs) = (prefix sub (x # xs) \<or> py_contains sub xs)"

definition py_endswith :: "string \<Rightarrow> string \<Rightarrow> bool" where
  "py_endswith s suf = suffix suf s"

text \<open>
  \<open>s.replace(old, new)\<close> for a non-empty \<open>old\<close>: every occurrence, left to right, without
  overlaps. (The scripts only call it with \<open>old = "-3050"\<close>; for an empty \<open>old\<close> this
  function returns \<open>s\<close>, which is not what Python does.)
\<close>

function py_replace :: "string \<Rightarrow> string \<Rightarrow> string \<Rightarrow> string" where
  "py_replace old new [] = []"
| "py_replace old new (x # xs) =
     (if old \<noteq> [] \<and> prefix old (x # xs)
      then new @ py_replace old new (drop (length old - 1) xs)
      else x # py_replace old new xs)"
  by pat_completeness auto
termination
  by (relation "measure (\<lambda>(old, new, s). length s)") auto

definition py_linebreak :: "char \<Rightarrow> bool" where
  \<comment> \<open>the line boundaries of \<open>str.splitlines()\<close>: LF, VT, FF, CR, FS, GS, RS and NEL\<close>
  "py_linebreak c = ((of_char c :: nat) \<in> {10, 11, 12, 13, 28, 29, 30, 133})"

text \<open>
  \<open>s.splitlines()\<close>: the lines without their boundaries; CR LF is one boundary, and a
  boundary at the very end opens no further line.
\<close>

fun py_splitlines :: "string \<Rightarrow> string list" where
  "py_splitlines [] = []"
| "py_splitlines [x] = (if py_linebreak x then [[]] else [[x]])"
| "py_splitlines (x # y # ys) =
     (if x = CHR 0x0D \<and> y = CHR 0x0A then [] # py_splitlines ys
      else if py_linebreak x then [] # py_splitlines (y # ys)
      else (case py_splitlines (y # ys) of [] \<Rightarrow> [[x]] | l # ls \<Rightarrow> (x # l) # ls))"

section \<open>Base profile keys\<close>

text \<open>\<open>make_key_from_sku\<close> of \<open>clean_extrusions.py\<close>; both branches return the same value.\<close>

definition make_key_from_sku :: "string \<Rightarrow> string" where
  "make_key_from_sku sku =
     (let parts = py_split CHR ''-'' sku in
      if parts \<noteq> [] \<and> py_isdigit (last parts)
      then py_join ''-'' (butlast parts)
      else py_join ''-'' (butlast parts))"

text \<open>\<open>sku_base\<close> and \<open>length_token\<close> of \<open>update_xlsx_from_csv.py\<close>.\<close>

definition sku_base :: "string \<Rightarrow> string" where
  "sku_base sku =
     (let parts = py_split CHR ''-'' sku in
      if length parts \<le> 1 then sku else py_join ''-'' (butlast parts))"

definition length_token :: "string \<Rightarrow> string" where
  "length_token sku = last (py_split CHR ''-'' sku)"

section \<open>The filter pass (\<open>clean_extrusions.py\<close>)\<close>

definition ALLOWED :: "string set" where
  "ALLOWED = {''500'', ''1000'', ''1500'', ''3050''}"

definition parse_line_csv :: "string \<Rightarrow> string list" where
  \<comment> \<open>the comprehension \<open>p if p != '' else ''\<close> leaves every part as it is\<close>
  "parse_line_csv line = py_split CHR '','' (py_strip line)"

definition parse_line_txt :: "string \<Rightarrow> string list" where
  "parse_line_txt line = py_split CHR 0x09 line"

text \<open>
  The state of the first loop of \<open>clean_csv\<close> and \<open>clean_txt\<close>. \<open>base_first_row\<close> is a
  dictionary that is later iterated in insertion order, so it is an association list that
  only grows at its end.
\<close>

record clean_state =
  kept :: "string list list"
  base_has_3050 :: "string \<rightharpoonup> bool"
  base_first_row :: "(string \<times> string list) list"

definition clean_init :: clean_state where
  "clean_init = \<lparr>kept = [], base_has_3050 = Map.empty, base_first_row = []\<rparr>"

text \<open>
  One iteration of the first loop, after the line has been split into \<open>parts\<close>. The body is
  written twice in the source (lines 41 to 56 and 95 to 108) with the same text.
\<close>

definition clean_step :: "clean_state \<Rightarrow> string list \<Rightarrow> clean_state" where
  "clean_step st parts =
     (if length parts < 3 then st
      else let sku = py_strip (parts ! 2) in
        if py_contains ''TAP1'' sku \<or> py_contains ''TAP2'' sku then st
        else let lst = last (py_split CHR ''-'' sku) in
          if lst \<notin> ALLOWED then st
          else let base = make_key_from_sku sku in
            \<lparr>kept = kept st @ [parts],
             base_has_3050 =
               (if lst = ''3050'' then (base_has_3050 st)(base \<mapsto> True) else base_has_3050 st),
             base_first_row =
               (if map_of (base_first_row st) base = None
                then base_first_row st @ [(base, parts)] else base_first_row st)\<rparr>)"

definition clean_loop :: "(string \<Rightarrow> string list) \<Rightarrow> string list \<Rightarrow> clean_state" where
  "clean_loop parse lines = foldl (\<lambda>st line. clean_step st (parse line)) clean_init lines"

text \<open>\<open>while len(new_parts) < 7: new_parts.append('')\<close>\<close>

definition pad7 :: "string list \<Rightarrow> string list" where
  "pad7 parts = parts @ replicate (7 - length parts) []"

text \<open>The synthesized row of \<open>clean_csv\<close>, with its test of the length after padding.\<close>

definition new_parts_csv :: "string \<Rightarrow> string list \<Rightarrow> string list" where
  "new_parts_csv base first_parts =
     (let p = (pad7 first_parts)[2 := base @ ''-3050''] in
      if length p \<ge> 7 then p[3 := [], 4 := [], 5 := [], 6 := []] else p)"

text \<open>The synthesized row of \<open>clean_txt\<close>, which blanks the four fields without a test.\<close>

definition new_parts_txt :: "string \<Rightarrow> string list \<Rightarrow> string list" where
  "new_parts_txt base first_parts =
     (pad7 first_parts)[2 := base @ ''-3050'', 3 := [], 4 := [], 5 := [], 6 := []]"

text \<open>
  The second loop: for every base in insertion order, append a row when the base has no
  \<open>3050\<close> row. The loop appends to \<open>kept\<close> only, so the two dictionaries are read as
  they were after the first loop.
\<close>

definition add_missing ::
  "(string \<Rightarrow> string list \<Rightarrow> string list) \<Rightarrow> clean_state \<Rightarrow> string list list" where
  "add_missing new_parts st =
     foldl (\<lambda>k (base, first_parts).
        if \<not> (case base_has_3050 st base of None \<Rightarrow> False | Some v \<Rightarrow> v)
        then k @ [new_parts base first_parts] else k)
       (kept st) (base_first_row st)"

text \<open>\<open>kept.sort(key=lambda p: (p[1], p[2]))\<close>: a stable sort; every row has three fields.\<close>

definition sort_kept :: "string list list \<Rightarrow> string list list" where
  "sort_kept k = sort_key (\<lambda>p. (p ! 1, p ! 2)) k"

definition nonblank_lines :: "string \<Rightarrow> string list" where
  "nonblank_lines text = filter (\<lambda>l. py_strip l \<noteq> []) (py_splitlines text)"

definition write_lines :: "string \<Rightarrow> string list list \<Rightarrow> string" where
  "write_lines sep rows = py_join [CHR 0x0A] (map (py_join sep) rows) @ [CHR 0x0A]"

text \<open>The rows that \<open>clean_csv\<close> writes, and the text of the file it leaves.\<close>

definition clean_csv_rows :: "string \<Rightarrow> string list list" where
  "clean_csv_rows text =
     sort_kept (add_missing new_parts_csv (clean_loop parse_line_csv (nonblank_lines text)))"

definition clean_csv :: "string \<Rightarrow> string" where
  "clean_csv text = write_lines '','' (clean_csv_rows text)"

definition clean_txt_rows :: "string \<Rightarrow> string list list" where
  "clean_txt_rows text =
     sort_kept (add_missing new_parts_txt (clean_loop parse_line_txt (nonblank_lines text)))"

definition clean_txt :: "string \<Rightarrow> string" where
  "clean_txt text = write_lines [CHR 0x09] (clean_txt_rows text)"

text \<open>
  Vocabulary for the statements about rows: the SKU the loop looks at (field 2, stripped),
  its base profile key and length token as the filter pass computes them, and the test a
  row must pass to be kept.
\<close>

definition row_sku :: "string list \<Rightarrow> string" where
  "row_sku p = py_strip (p ! 2)"

definition row_base :: "string list \<Rightarrow> string" where
  "row_base p = make_key_from_sku (row_sku p)"

definition row_token :: "string list \<Rightarrow> string" where
  "row_token p = last (py_split CHR ''-'' (row_sku p))"

definition survives :: "string list \<Rightarrow> bool" where
  "survives p = (3 \<le> length p \<and> \<not> py_contains ''TAP1'' (row_sku p)
     \<and> \<not> py_contains ''TAP2'' (row_sku p) \<and> row_token p \<in> ALLOWED)"

definition has_3050 :: "string list list \<Rightarrow> string \<Rightarrow> bool" where
  "has_3050 rows b = (\<exists>p \<in> set rows. row_base p = b \<and> row_token p = ''3050'')"

fun firsts :: "string list list \<Rightarrow> (string \<times> string list) list" where
  "firsts [] = []"
| "firsts (p # ps) = (row_base p, p) # filter (\<lambda>(b, q). b \<noteq> row_base p) (firsts ps)"

section \<open>Floating-point numbers and decimals\<close>

text \<open>
  The two pricing scripts compute with Python floats. What the interpreter does with a float
  is taken as a parameter: a record of the operations the scripts call, over a type \<open>'f\<close> of
  float values. The theorems that hold for every such record hold for the interpreter's own
  floats; \<open>double_ops\<close> further down is the IEEE 754 instance used where a number matters.
\<close>

record 'f float_ops =
  float_of_string :: "string \<Rightarrow> 'f option"  \<comment> \<open>\<open>float(s)\<close>; \<open>None\<close> when it raises\<close>
  float_lit :: "int \<Rightarrow> int \<Rightarrow> 'f"  \<comment> \<open>the literal \<open>c\<close>e\<open>k\<close>: \<open>3.05\<close> is \<open>float_lit 305 (-2)\<close>\<close>
  float_mul :: "'f \<Rightarrow> 'f \<Rightarrow> 'f"  \<comment> \<open>\<open>x * y\<close>\<close>
  float_div :: "'f \<Rightarrow> 'f \<Rightarrow> 'f"  \<comment> \<open>\<open>x / y\<close>, only called with a non-zero literal \<open>y\<close>\<close>
  float_round2 :: "'f \<Rightarrow> 'f"  \<comment> \<open>\<open>round(x, 2)\<close>\<close>
  float_format2 :: "'f \<Rightarrow> string"  \<comment> \<open>\<open>f"{x:.2f}"\<close>\<close>
  float_str :: "'f \<Rightarrow> string"  \<comment> \<open>\<open>str(x)\<close>\<close>

datatype py_error = InvalidOperation

text \<open>Decimal digits.\<close>

definition digit_char :: "nat \<Rightarrow> char" where
  "digit_char d = char_of (48 + d)"

text \<open>Numbers that grow large are integers, never below zero where they stand for digits.\<close>

function dec_digits :: "int \<Rightarrow> string" where
  "dec_digits n =
     (if n < 10 then [digit_char (nat n)]
      else dec_digits (n div 10) @ [digit_char (nat (n mod 10))])"
  by pat_completeness auto
termination
  by (relation "measure nat") auto

declare dec_digits.simps [simp del]

definition is_digit :: "char \<Rightarrow> bool" where
  "is_digit c = (48 \<le> (of_char c :: nat) \<and> (of_char c :: nat) \<le> 57)"

definition digit_val :: "char \<Rightarrow> int" where
  "digit_val c = (of_char c :: int) - 48"

definition int_of_digits :: "string \<Rightarrow> int" where
  "int_of_digits ds = foldl (\<lambda>n c. 10 * n + digit_val c) 0 ds"

text \<open>
  \<open>decimal.Decimal\<close>: a sign, a coefficient and an exponent of ten, or an infinity, or a NaN.
\<close>

datatype decimal = DFin bool int int | DInf bool | DNaN

text \<open>
  \<open>Decimal(s)\<close> for the strings that \<open>str\<close> returns for a float: \<open>inf\<close>, \<open>nan\<close>, digits with a
  fraction, and the form with an exponent, each with an optional minus sign. Any other
  string is taken to raise (the constructor accepts more, such as surrounding blanks).
\<close>

definition decimal_mantissa :: "string \<Rightarrow> (int \<times> int) option" where
  "decimal_mantissa s =
     (let ip = takeWhile is_digit s; r = dropWhile is_digit s in
      if r = [] then (if ip = [] then None else Some (int_of_digits ip, 0))
      else if hd r = CHR ''.'' \<and> list_all is_digit (tl r) \<and> (ip \<noteq> [] \<or> tl r \<noteq> [])
        then Some (int_of_digits (ip @ tl r), - int (length (tl r)))
      else None)"

definition decimal_exponent :: "string \<Rightarrow> int option" where
  "decimal_exponent s =
     (case s of
        [] \<Rightarrow> None
      | c # ds \<Rightarrow>
          if c = CHR ''+'' \<and> ds \<noteq> [] \<and> list_all is_digit ds then Some (int_of_digits ds)
          else if c = CHR ''-'' \<and> ds \<noteq> [] \<and> list_all is_digit ds
            then Some (- int_of_digits ds)
          else if list_all is_digit s then Some (int_of_digits s)
          else None)"

definition decimal_unsigned :: "bool \<Rightarrow> string \<Rightarrow> decimal option" where
  "decimal_unsigned sg s =
     (if s = ''inf'' then Some (DInf sg)
      else if s = ''nan'' then Some DNaN
      else let m = takeWhile (\<lambda>c. c \<noteq> CHR ''e'') s; r = dropWhile (\<lambda>c. c \<noteq> CHR ''e'') s in
        case decimal_mantissa m of
          None \<Rightarrow> None
        | Some (c, k) \<Rightarrow>
            if r = [] then Some (DFin sg c k)
            else (case decimal_exponent (tl r) of
                    None \<Rightarrow> None
                  | Some e \<Rightarrow> Some (DFin sg c (k + e))))"

definition Decimal :: "string \<Rightarrow> py_error + decimal" where
  "Decimal s =
     (case (case s of
              [] \<Rightarrow> None
            | c # r \<Rightarrow> if c = CHR ''-'' then decimal_unsigned True r
                       else decimal_unsigned False s) of
        None \<Rightarrow> Inl InvalidOperation
      | Some d \<Rightarrow> Inr d)"

text \<open>
  \<open>d.quantize(Decimal("0.01"), rounding=ROUND_HALF_UP)\<close> in the default context of 28
  digits: an infinity, or a result of more than 28 digits, raises; a NaN stays a NaN.
\<close>

definition quantize_cents :: "decimal \<Rightarrow> py_error + decimal" where
  "quantize_cents d =
     (case d of
        DNaN \<Rightarrow> Inr DNaN
      | DInf sg \<Rightarrow> Inl InvalidOperation
      | DFin sg c e \<Rightarrow>
          let c' = (if - 2 \<le> e then c * 10 ^ nat (e + 2)
                    else let p = 10 ^ nat (- 2 - e) in
                      (if p \<le> 2 * (c mod p) then c div p + 1 else c div p))
          in if 28 < length (dec_digits c') then Inl InvalidOperation
             else Inr (DFin sg c' (- 2)))"

text \<open>\<open>format(d, "f")\<close> for a decimal with exponent \<open>-2\<close>, and for a NaN.\<close>

definition format_f :: "decimal \<Rightarrow> string" where
  "format_f d =
     (case d of
        DNaN \<Rightarrow> ''NaN''
      | DInf sg \<Rightarrow> (if sg then ''-Infinity'' else ''Infinity'')
      | DFin sg c e \<Rightarrow>
          (if sg then ''-'' else []) @ dec_digits (c div 100) @ ''.'' @
            [digit_char (nat (c mod 100 div 10)), digit_char (nat (c mod 10))])"

section \<open>The price backfill (\<open>fill_3050_prices.py\<close>)\<close>

definition is_numeric :: "'f float_ops \<Rightarrow> string \<Rightarrow> bool" where
  "is_numeric ops s = (float_of_string ops s \<noteq> None)"

definition round2 :: "'f float_ops \<Rightarrow> 'f \<Rightarrow> py_error + string" where
  "round2 ops v =
     (case Decimal (float_str ops v) of
        Inl err \<Rightarrow> Inl err
      | Inr d0 \<Rightarrow>
          (case quantize_cents d0 of
             Inl err \<Rightarrow> Inl err
           | Inr d \<Rightarrow> Inr (format_f d)))"

text \<open>
  The table is the list of rows that \<open>csv.reader\<close> returns, and the file after the script is
  the list of rows handed to \<open>csv.writer\<close>.
\<close>

type_synonym table = "string list list"

text \<open>The field at index 5, stripped, or the empty string for a shorter row.\<close>

definition price_field :: "string list \<Rightarrow> string" where
  "price_field row = (if length row > 5 then py_strip (row ! 5) else [])"

text \<open>One iteration of the loop that builds \<open>price_map\<close>.\<close>

definition price_map_step :: "'f float_ops \<Rightarrow> (string \<rightharpoonup> 'f) \<Rightarrow> string list \<Rightarrow> (string \<rightharpoonup> 'f)" where
  "price_map_step ops m row =
     (if length row < 3 then m
      else let sku = py_strip (row ! 2) in
        if py_endswith sku ''-1000''
        then let price = price_field row in
          (if is_numeric ops price
           then (case float_of_string ops price of None \<Rightarrow> m | Some v \<Rightarrow> m(sku \<mapsto> v))
           else m)
        else m)"

definition price_map :: "'f float_ops \<Rightarrow> table \<Rightarrow> (string \<rightharpoonup> 'f)" where
  "price_map ops reader = foldl (price_map_step ops) Map.empty reader"

record fill_state =
  reader :: table
  updated :: nat
  missing_source :: "string list"

text \<open>\<open>while len(row) <= 5: row.append("")\<close>\<close>

definition pad6 :: "string list \<Rightarrow> string list" where
  "pad6 row = row @ replicate (6 - length row) []"

text \<open>
  One iteration of the main loop, at index \<open>i\<close> with the row found there. An exception of
  \<open>round2\<close> ends the script.
\<close>

definition fill_row ::
  "'f float_ops \<Rightarrow> (string \<rightharpoonup> 'f) \<Rightarrow> nat \<Rightarrow> string list \<Rightarrow> fill_state \<Rightarrow> py_error + fill_state" where
  "fill_row ops pm i row st =
     (if length row < 3 then Inr st
      else let sku = py_strip (row ! 2) in
        if \<not> py_endswith sku ''-3050'' then Inr st
        else let price = price_field row in
          if is_numeric ops price then Inr st
          else let sku1000 = py_replace ''-3050'' ''-1000'' sku in
            (case pm sku1000 of
               Some base \<Rightarrow>
                 (let new_price = float_mul ops base (float_lit ops 305 (- 2)) in
                  case round2 ops new_price of
                    Inl err \<Rightarrow> Inl err
                  | Inr new_price_str \<Rightarrow>
                      Inr (st\<lparr>reader := (reader st)[i := (pad6 row)[5 := new_price_str]],
                              updated := updated st + 1\<rparr>))
             | None \<Rightarrow> Inr (st\<lparr>missing_source := missing_source st @ [sku]\<rparr>)))"

fun fill_rows ::
  "'f float_ops \<Rightarrow> (string \<rightharpoonup> 'f) \<Rightarrow> nat \<Rightarrow> table \<Rightarrow> fill_state \<Rightarrow> py_error + fill_state" where
  "fill_rows ops pm i [] st = Inr st"
| "fill_rows ops pm i (row # rest) st =
     (case fill_row ops pm i row st of
        Inl err \<Rightarrow> Inl err
      | Inr st' \<Rightarrow> fill_rows ops pm (Suc i) rest st')"

text \<open>
  What a run that ends normally leaves: the table written to the file, if the file was
  written, and the two values of the printed summary.
\<close>

record fill_result =
  written :: "table option"
  count_updated :: nat
  unresolved :: "string list"

definition fill_3050_prices :: "'f float_ops \<Rightarrow> table \<Rightarrow> py_error + fill_result" where
  "fill_3050_prices ops rd =
     (case fill_rows ops (price_map ops rd) 0 rd
             \<lparr>reader = rd, updated = 0, missing_source = []\<rparr> of
        Inl err \<Rightarrow> Inl err
      | Inr st \<Rightarrow>
          Inr \<lparr>written = (if updated st > 0 then Some (reader st) else None),
               count_updated = updated st,
               unresolved = missing_source st\<rparr>)"

section \<open>The spreadsheet sync (\<open>update_xlsx_from_csv.py\<close>)\<close>

text \<open>\<open>read_csv_rows\<close>: the rows of the CSV reader without the empty ones.\<close>

definition read_csv_rows :: "table \<Rightarrow> table" where
  "read_csv_rows csv_rows = filter (\<lambda>r. r \<noteq> []) csv_rows"

definition to_float :: "'f float_ops \<Rightarrow> string \<Rightarrow> 'f option" where
  "to_float ops s = float_of_string ops s"

text \<open>The three dictionaries of \<open>main\<close>.\<close>

record 'f rates =
  price_per_mm :: "string \<rightharpoonup> 'f"
  cost_per_mm :: "string \<rightharpoonup> 'f"
  first_row_for_base :: "string \<rightharpoonup> string list"

definition rates_init :: "'f rates" where
  "rates_init = \<lparr>price_per_mm = Map.empty, cost_per_mm = Map.empty,
     first_row_for_base = Map.empty\<rparr>"

text \<open>
  The two assignments shared by both rate loops: each rate is set when the field parses.
  \<open>len\<close> is the reference length, 1000 or 1500.
\<close>

definition set_rates ::
  "'f float_ops \<Rightarrow> int \<Rightarrow> string \<Rightarrow> string list \<Rightarrow> 'f rates \<Rightarrow> 'f rates" where
  "set_rates ops len base r st =
     (let price = (if length r > 5 then to_float ops (r ! 5) else None);
          cost = (if length r > 6 then to_float ops (r ! 6) else None);
          st1 = (case price of
                   None \<Rightarrow> st
                 | Some p \<Rightarrow> st\<lparr>price_per_mm :=
                     (price_per_mm st)(base \<mapsto> float_div ops p (float_lit ops len 0))\<rparr>)
      in (case cost of
            None \<Rightarrow> st1
          | Some c \<Rightarrow> st1\<lparr>cost_per_mm :=
              (cost_per_mm st1)(base \<mapsto> float_div ops c (float_lit ops len 0))\<rparr>))"

text \<open>One iteration of the first loop (rates from the \<open>1000\<close> rows).\<close>

definition rate_step_1000 :: "'f float_ops \<Rightarrow> 'f rates \<Rightarrow> string list \<Rightarrow> 'f rates" where
  "rate_step_1000 ops st r =
     (if length r < 3 then st
      else let sku = py_strip (r ! 2);
               base = sku_base sku;
               st0 = st\<lparr>first_row_for_base :=
                 (case first_row_for_base st base of
                    None \<Rightarrow> (first_row_for_base st)(base \<mapsto> r)
                  | Some r0 \<Rightarrow> first_row_for_base st)\<rparr>;
               token = length_token sku
           in if token = ''1000'' then set_rates ops 1000 base r st0 else st0)"

text \<open>One iteration of the second loop (the fallback to the \<open>1500\<close> rows).\<close>

definition rate_step_1500 :: "'f float_ops \<Rightarrow> 'f rates \<Rightarrow> string list \<Rightarrow> 'f rates" where
  "rate_step_1500 ops st r =
     (if length r < 3 then st
      else let sku = py_strip (r ! 2);
               base = sku_base sku;
               token = length_token sku
           in if price_per_mm st base \<noteq> None then st
              else if token = ''1500'' then set_rates ops 1500 base r st else st)"

definition build_rates :: "'f float_ops \<Rightarrow> table \<Rightarrow> 'f rates" where
  "build_rates ops rows =
     foldl (rate_step_1500 ops) (foldl (rate_step_1000 ops) rates_init rows) rows"

text \<open>\<open>f"{round(rate * 3050, 2):.2f}"\<close>\<close>

definition scaled_3050 :: "'f float_ops \<Rightarrow> 'f \<Rightarrow> string" where
  "scaled_3050 ops rate =
     float_format2 ops (float_round2 ops (float_mul ops rate (float_lit ops 3050 0)))"

text \<open>One iteration of the third loop: the row that is appended to \<open>updated_rows\<close>.\<close>

definition fill_3050_row :: "'f float_ops \<Rightarrow> 'f rates \<Rightarrow> string list \<Rightarrow> string list" where
  "fill_3050_row ops st r0 =
     (let r = pad7 r0;
          sku = (if length r > 2 then py_strip (r ! 2) else []);
          token = (if sku \<noteq> [] then length_token sku else []);
          base = (if sku \<noteq> [] then sku_base sku else [])
      in if token = ''3050''
         then let price = to_float ops (r ! 5);
                  cost = to_float ops (r ! 6);
                  ppm = price_per_mm st base;
                  cpm = cost_per_mm st base;
                  r1 = (case ppm of
                          None \<Rightarrow> r
                        | Some rate \<Rightarrow> if price = None then r[5 := scaled_3050 ops rate] else r)
              in (case cpm of
                    None \<Rightarrow> r1
                  | Some rate \<Rightarrow> if cost = None then r1[6 := scaled_3050 ops rate] else r1)
         else r)"

text \<open>
  \<open>main\<close>: the list \<open>updated_rows\<close>, whose rows \<open>ws.append\<close> receives one by one, in order: the
  worksheet gets one cell for each field of each row. The rate loops read the rows before
  the third loop pads them.
\<close>

definition main :: "'f float_ops \<Rightarrow> table \<Rightarrow> table" where
  "main ops csv_rows =
     (let rows = read_csv_rows csv_rows;
          st = build_rates ops rows
      in map (fill_3050_row ops st) rows)"

section \<open>IEEE 754 double precision\<close>

text \<open>
  The floats of the interpreter: binary64 with rounding to nearest, ties to even.
  \<open>Fin s m e\<close> is \<open>(-1)^s * m * 2^e\<close>, kept in the one form the format allows: zero is
  \<open>m = 0\<close>, \<open>e = 0\<close>; a normal number has \<open>2^52 \<le> m < 2^53\<close> and \<open>-1074 \<le> e \<le> 971\<close>; a
  subnormal one has \<open>m < 2^52\<close> and \<open>e = -1074\<close>.
\<close>

datatype double = Fin bool int int | Inf bool | NaN

text \<open>The number of binary digits of a positive integer.\<close>

function bits :: "int \<Rightarrow> int" where
  "bits n = (if n \<le> 0 then 0 else 1 + bits (n div 2))"
  by pat_completeness auto
termination
  by (relation "measure nat") auto

declare bits.simps [simp del]

text \<open>Nearest integer to \<open>num / den\<close>, ties to the even one.\<close>

definition round_half_even :: "int \<Rightarrow> int \<Rightarrow> int" where
  "round_half_even num den =
     (let q = num div den; r = num mod den in
      if 2 * r < den then q
      else if den < 2 * r then q + 1
      else if even q then q else q + 1)"

text \<open>Numerator and denominator of \<open>n / (d * 2^e)\<close>.\<close>

definition scale2 :: "int \<Rightarrow> int \<Rightarrow> int \<Rightarrow> int \<times> int" where
  "scale2 n d e = (if 0 \<le> e then (n, d * 2 ^ nat e) else (n * 2 ^ nat (- e), d))"

text \<open>The double nearest to \<open>(-1)^s * n / d\<close>, for \<open>n > 0\<close> and \<open>d > 0\<close>.\<close>

definition round_ratio :: "bool \<Rightarrow> int \<Rightarrow> int \<Rightarrow> double" where
  "round_ratio s n d =
     (let e0 = bits n - bits d - 53;
          (n0, d0) = scale2 n d (e0 + 1);
          e1 = (if 2 ^ 52 * d0 \<le> n0 then e0 + 1 else e0);
          e = max e1 (- 1074);
          (num, den) = scale2 n d e;
          m = round_half_even num den
      in if m = 0 then Fin s 0 0
         else if m = 2 ^ 53 then (if 971 < e + 1 then Inf s else Fin s (2 ^ 52) (e + 1))
         else if 971 < e then Inf s
         else Fin s m e)"

text \<open>The double nearest to \<open>(-1)^s * c * 10^k\<close>.\<close>

definition double_of_decimal :: "bool \<Rightarrow> int \<Rightarrow> int \<Rightarrow> double" where
  "double_of_decimal s c k =
     (if c = 0 then Fin s 0 0
      else if 0 \<le> k then round_ratio s (c * 10 ^ nat k) 1
      else round_ratio s c (10 ^ nat (- k)))"

definition double_lit :: "int \<Rightarrow> int \<Rightarrow> double" where
  "double_lit c k = double_of_decimal (c < 0) \<bar>c\<bar> k"

definition double_mul :: "double \<Rightarrow> double \<Rightarrow> double" where
  "double_mul x y =
     (case (x, y) of
        (NaN, _) \<Rightarrow> NaN
      | (_, NaN) \<Rightarrow> NaN
      | (Inf s, Inf t) \<Rightarrow> Inf (s \<noteq> t)
      | (Inf s, Fin t m e) \<Rightarrow> if m = 0 then NaN else Inf (s \<noteq> t)
      | (Fin s m e, Inf t) \<Rightarrow> if m = 0 then NaN else Inf (s \<noteq> t)
      | (Fin s m e, Fin t n f) \<Rightarrow>
          if m * n = 0 then Fin (s \<noteq> t) 0 0
          else let (num, den) = scale2 (m * n) 1 (- (e + f)) in round_ratio (s \<noteq> t) num den)"

text \<open>
  \<open>x / y\<close>. Python raises for a zero divisor; the scripts divide by the literals \<open>1000.0\<close> and
  \<open>1500.0\<close> only, and the value given here for a zero divisor is never used.
\<close>

definition double_div :: "double \<Rightarrow> double \<Rightarrow> double" where
  "double_div x y =
     (case (x, y) of
        (NaN, _) \<Rightarrow> NaN
      | (_, NaN) \<Rightarrow> NaN
      | (Inf s, Inf t) \<Rightarrow> NaN
      | (Inf s, Fin t m e) \<Rightarrow> Inf (s \<noteq> t)
      | (Fin s m e, Inf t) \<Rightarrow> Fin (s \<noteq> t) 0 0
      | (Fin s m e, Fin t n f) \<Rightarrow>
          if n = 0 then NaN
          else if m = 0 then Fin (s \<noteq> t) 0 0
          else let (num, den) = scale2 m n (f - e) in round_ratio (s \<noteq> t) num den)"

text \<open>The nearest integer to \<open>100 * m * 2^e\<close>, ties to even: the value in hundredths.\<close>

definition hundredths :: "int \<Rightarrow> int \<Rightarrow> int" where
  "hundredths m e = (let (num, den) = scale2 (100 * m) 1 (- e) in round_half_even num den)"

text \<open>\<open>round(x, 2)\<close>: the double nearest to the correctly rounded two-decimal value.\<close>

definition double_round2 :: "double \<Rightarrow> double" where
  "double_round2 x =
     (case x of
        Fin s m e \<Rightarrow> double_of_decimal s (hundredths m e) (- 2)
      | _ \<Rightarrow> x)"

text \<open>\<open>f"{x:.2f}"\<close>\<close>

definition double_format2 :: "double \<Rightarrow> string" where
  "double_format2 x =
     (case x of
        NaN \<Rightarrow> ''nan''
      | Inf s \<Rightarrow> (if s then ''-inf'' else ''inf'')
      | Fin s m e \<Rightarrow>
          (let c = hundredths m e in
           (if s then ''-'' else []) @ dec_digits (c div 100) @ ''.'' @
             [digit_char (nat (c mod 100 div 10)), digit_char (nat (c mod 10))]))"

subsection \<open>\<open>str\<close> of a float: the shortest digits that read back as the same double\<close>

text \<open>
  The position of the decimal point of \<open>n / d > 0\<close>: the \<open>p\<close> with \<open>10^(p-1) \<le> n / d < 10^p\<close>.
  The search for a value below one is bounded by the smallest double.
\<close>

fun point_below :: "nat \<Rightarrow> int \<Rightarrow> int \<Rightarrow> nat \<Rightarrow> int" where
  "point_below fuel n d j =
     (case fuel of
        0 \<Rightarrow> - int j
      | Suc fuel' \<Rightarrow> if d \<le> n * 10 ^ Suc j then - int j else point_below fuel' n d (Suc j))"

definition decimal_point :: "int \<Rightarrow> int \<Rightarrow> int" where
  "decimal_point n d =
     (if d \<le> n then int (length (dec_digits (n div d))) else point_below 400 n d 0)"

text \<open>Numerator and denominator of \<open>n / (d * 10^q)\<close>.\<close>

definition scale10 :: "int \<Rightarrow> int \<Rightarrow> int \<Rightarrow> int \<times> int" where
  "scale10 n d q = (if 0 \<le> q then (n, d * 10 ^ nat q) else (n * 10 ^ nat (- q), d))"

text \<open>
  With \<open>k\<close> digits: the two \<open>k\<close>-digit decimals around the value, and of those that read back
  as \<open>x\<close> the nearer one (the even one on a tie). The result is the integer of the digits
  and the exponent of ten of its last digit.
\<close>

definition candidate :: "double \<Rightarrow> int \<Rightarrow> int \<Rightarrow> int \<Rightarrow> nat \<Rightarrow> (int \<times> int) option" where
  "candidate x n d p k =
     (let q = p - int k;
          (num, den) = scale10 n d q;
          lo = num div den;
          r = num mod den;
          ok_lo = (lo \<noteq> 0 \<and> double_of_decimal False lo q = x);
          ok_hi = (double_of_decimal False (lo + 1) q = x)
      in if ok_lo \<and> ok_hi then
           (if 2 * r < den then Some (lo, q)
            else if den < 2 * r then Some (lo + 1, q)
            else if even lo then Some (lo, q) else Some (lo + 1, q))
         else if ok_lo then Some (lo, q)
         else if ok_hi then Some (lo + 1, q)
         else None)"

fun shortest :: "double \<Rightarrow> int \<Rightarrow> int \<Rightarrow> int \<Rightarrow> nat \<Rightarrow> nat \<Rightarrow> int \<times> int" where
  "shortest x n d p k fuel =
     (case fuel of
        0 \<Rightarrow> (let (num, den) = scale10 n d (p - int k) in (round_half_even num den, p - int k))
      | Suc fuel' \<Rightarrow>
          (case candidate x n d p k of
             Some r \<Rightarrow> r
           | None \<Rightarrow> shortest x n d p (Suc k) fuel'))"

text \<open>Trailing zeros of the digits move into the exponent.\<close>

fun strip_zeros :: "nat \<Rightarrow> int \<Rightarrow> int \<Rightarrow> int \<times> int" where
  "strip_zeros fuel c q =
     (case fuel of
        0 \<Rightarrow> (c, q)
      | Suc fuel' \<Rightarrow> if c \<noteq> 0 \<and> c mod 10 = 0 then strip_zeros fuel' (c div 10) (q + 1) else (c, q))"

text \<open>
  The layout of \<open>repr\<close>: digits \<open>ds\<close> with the decimal point after \<open>pt\<close> of them; the form with
  an exponent when \<open>pt > 16\<close> or \<open>pt < -3\<close>.
\<close>

definition repr_layout :: "string \<Rightarrow> int \<Rightarrow> string" where
  "repr_layout ds pt =
     (if 16 < pt \<or> pt < - 3 then
        (let ex = pt - 1;
             mant = (if length ds = 1 then ds else hd ds # CHR ''.'' # tl ds);
             exd = dec_digits \<bar>ex\<bar>
         in mant @ ''e'' @ (if ex < 0 then ''-'' else ''+'') @
            (if length exd < 2 then CHR ''0'' # exd else exd))
      else if pt \<le> 0 then ''0.'' @ replicate (nat (- pt)) CHR ''0'' @ ds
      else if int (length ds) \<le> pt then ds @ replicate (nat pt - length ds) CHR ''0'' @ ''.0''
      else take (nat pt) ds @ ''.'' @ drop (nat pt) ds)"

definition double_str :: "double \<Rightarrow> string" where
  "double_str x =
     (case x of
        NaN \<Rightarrow> ''nan''
      | Inf s \<Rightarrow> (if s then ''-inf'' else ''inf'')
      | Fin s m e \<Rightarrow>
          (if s then ''-'' else []) @
          (if m = 0 then ''0.0''
           else let (n, d) = scale2 m 1 (- e);
                    p = decimal_point n d;
                    (c0, q0) = shortest (Fin False m e) n d p 1 17;
                    (c, q) = strip_zeros 20 c0 q0;
                    ds = dec_digits c
                in repr_layout ds (q + int (length ds))))"

subsection \<open>\<open>float\<close> of a string\<close>

text \<open>
  A run of digits in which single underscores may stand between digits: the digits, and
  what follows the run.
\<close>

fun digitpart :: "string \<Rightarrow> string \<times> string" where
  "digitpart [] = ([], [])"
| "digitpart [c] = (if is_digit c then ([c], []) else ([], [c]))"
| "digitpart (c # u # cs) =
     (if \<not> is_digit c then ([], c # u # cs)
      else if u = CHR ''_'' then
        (case cs of
           [] \<Rightarrow> ([c], u # cs)
         | d # ds \<Rightarrow> if is_digit d then (let (a, r) = digitpart cs in (c # a, r)) else ([c], u # cs))
      else (let (a, r) = digitpart (u # cs) in (c # a, r)))"

definition lower :: "char \<Rightarrow> char" where
  "lower c = (if 65 \<le> (of_char c :: nat) \<and> (of_char c :: nat) \<le> 90
     then char_of ((of_char c :: nat) + 32) else c)"

text \<open>The exponent after an \<open>e\<close>: a sign and a run of digits up to the end of the string.\<close>

definition float_exponent :: "string \<Rightarrow> int option" where
  "float_exponent s =
     (let neg = (s \<noteq> [] \<and> hd s = CHR ''-'');
          t = (if s \<noteq> [] \<and> (hd s = CHR ''-'' \<or> hd s = CHR ''+'') then tl s else s);
          (ds, r) = digitpart t
      in if ds = [] \<or> r \<noteq> [] then None
         else Some (if neg then - int_of_digits ds else int_of_digits ds))"

text \<open>A number without its sign: the integer of all its digits and the exponent of ten.\<close>

definition float_number :: "string \<Rightarrow> (int \<times> int) option" where
  "float_number s =
     (let (ip, r1) = digitpart s;
          dot = (r1 \<noteq> [] \<and> hd r1 = CHR ''.'');
          (fp, r2) = (if dot then digitpart (tl r1) else ([], r1))
      in if ip = [] \<and> fp = [] then None
         else if r2 = [] then Some (int_of_digits (ip @ fp), - int (length fp))
         else if lower (hd r2) = CHR ''e'' then
           (case float_exponent (tl r2) of
              None \<Rightarrow> None
            | Some ex \<Rightarrow> Some (int_of_digits (ip @ fp), ex - int (length fp)))
         else None)"

text \<open>
  The blanks that \<open>float\<close> removes at both ends: tab, LF, VT, FF, CR and space, and the two
  blanks beyond ASCII, NEL and the no-break space. The separators FS, GS, RS and US, which
  \<open>str.strip\<close> removes, stay and make the string no number.
\<close>

definition float_blank :: "char \<Rightarrow> bool" where
  "float_blank c = ((of_char c :: nat) \<in> {9, 10, 11, 12, 13, 32, 133, 160})"

definition double_of_string :: "string \<Rightarrow> double option" where
  "double_of_string s =
     (let t = rev (dropWhile float_blank (rev (dropWhile float_blank s)));
          neg = (t \<noteq> [] \<and> hd t = CHR ''-'');
          u = (if t \<noteq> [] \<and> (hd t = CHR ''-'' \<or> hd t = CHR ''+'') then tl t else t);
          w = map lower u
      in if w = ''inf'' \<or> w = ''infinity'' then Some (Inf neg)
         else if w = ''nan'' then Some NaN
         else (case float_number u of
                 None \<Rightarrow> None
               | Some (c, k) \<Rightarrow> Some (double_of_decimal neg c k)))"

definition double_ops :: "double float_ops" where
  "double_ops =
     \<lparr>float_of_string = double_of_string,
      float_lit = double_lit,
      float_mul = double_mul,
      float_div = double_div,
      float_round2 = double_round2,
      float_format2 = double_format2,
      float_str = double_str\<rparr>"

section \<open>Notions used in the statements\<close>

text \<open>
  None of the definitions below is part of the scripts: they name what the theorems speak
  about, in terms of the definitions above.
\<close>

subsection \<open>Filter pass\<close>

text \<open>
  The bases that need a synthesized row, each with its first row, in the order of the
  second loop; the rows the first loop keeps, for each of the two files; the rows the
  second loop appends; and the number of rows of a base with the length token \<open>3050\<close>.
\<close>

definition missing :: "string list list \<Rightarrow> (string \<times> string list) list" where
  "missing k = filter (\<lambda>(b, fp). \<not> has_3050 k b) (firsts k)"

definition surviving_csv :: "string \<Rightarrow> string list list" where
  "surviving_csv text = filter survives (map parse_line_csv (nonblank_lines text))"

definition surviving_txt :: "string \<Rightarrow> string list list" where
  "surviving_txt text = filter survives (map parse_line_txt (nonblank_lines text))"

definition synthesized :: "string list list \<Rightarrow> string list list" where
  "synthesized k = map (\<lambda>(b, fp). new_parts_txt b fp) (missing k)"

definition count_3050 :: "string list list \<Rightarrow> string \<Rightarrow> nat" where
  "count_3050 rows b = length (filter (\<lambda>p. row_base p = b \<and> row_token p = ''3050'') rows)"

text \<open>
  A row that the comma-delimited pass reads back as it wrote it: no field holds a comma or
  a line boundary, and the joined line has no blank at either end. For the tab-delimited
  pass, which does not strip the line: no field holds a tab or a line boundary, and the
  line is not blank.
\<close>

definition csv_ok :: "string list \<Rightarrow> bool" where
  "csv_ok p = (3 \<le> length p \<and>
     (\<forall>f \<in> set p. CHR '','' \<notin> set f \<and> (\<forall>c \<in> set f. \<not> py_linebreak c)) \<and>
     py_strip (py_join '','' p) = py_join '','' p)"

definition txt_ok :: "string list \<Rightarrow> bool" where
  "txt_ok p = (3 \<le> length p \<and>
     (\<forall>f \<in> set p. CHR 0x09 \<notin> set f \<and> (\<forall>c \<in> set f. \<not> py_linebreak c)) \<and>
     py_strip (py_join [CHR 0x09] p) \<noteq> [])"

text \<open>A tab-delimited text of two lines: \<open>9\<close>, and \<open>1\<close>, \<open>d\<close>, \<open>X-3050\<close> between tabs.\<close>

definition tab_example :: string where
  "tab_example = ''9\<newline>1'' @ [CHR 0x09] @ ''d'' @ [CHR 0x09] @ ''X-3050\<newline>''"

text \<open>
  A tab-delimited text of three lines, with the fields of the rows \<open>1\<close>, \<open>d\<close>, \<open>X-1000\<close>, \<open>a\<close>,
  \<open>b\<close>, \<open>9.5\<close>, \<open>4\<close>, \<open>z\<close>; then \<open>2\<close>, \<open>d\<close>, \<open>X-3050\<close>, two empty fields, \<open>30\<close> and an empty
  field; then \<open>3\<close>, \<open>e\<close>, \<open>Y-1000\<close>, \<open>a\<close>, \<open>b\<close>, \<open>9.5\<close>, \<open>4\<close>, \<open>z\<close>.
\<close>

definition tab_example_bases :: string where
  "tab_example_bases =
     py_join [CHR 0x09] [''1'', ''d'', ''X-1000'', ''a'', ''b'', ''9.5'', ''4'', ''z''] @ ''\<newline>'' @
     py_join [CHR 0x09] [''2'', ''d'', ''X-3050'', [], [], ''30'', []] @ ''\<newline>'' @
     py_join [CHR 0x09] [''3'', ''e'', ''Y-1000'', ''a'', ''b'', ''9.5'', ''4'', ''z''] @ ''\<newline>''"

subsection \<open>Price backfill\<close>

text \<open>
  A field of a row, a missing trailing field reading as the empty string; and a row that
  the main loop looks at: at least three fields and a SKU that ends in \<open>-3050\<close>.
\<close>

definition field_at :: "string list \<Rightarrow> nat \<Rightarrow> string" where
  "field_at row j = (if j < length row then row ! j else [])"

definition ends_3050 :: "string list \<Rightarrow> bool" where
  "ends_3050 row = (3 \<le> length row \<and> py_endswith (py_strip (row ! 2)) ''-3050'')"

text \<open>A row that sets the entry \<open>k\<close> of \<open>price_map\<close>.\<close>

definition price_source :: "'f float_ops \<Rightarrow> string \<Rightarrow> string list \<Rightarrow> bool" where
  "price_source ops k row = (3 \<le> length row \<and> py_strip (row ! 2) = k \<and> py_endswith k ''-1000''
     \<and> is_numeric ops (price_field row))"

text \<open>The row that one iteration of the main loop stores at its index, if it stores one.\<close>

definition row_update :: "'f float_ops \<Rightarrow> (string \<rightharpoonup> 'f) \<Rightarrow> string list \<Rightarrow> string list option" where
  "row_update ops pm row =
     (if ends_3050 row \<and> \<not> is_numeric ops (price_field row) then
        (case pm (py_replace ''-3050'' ''-1000'' (py_strip (row ! 2))) of
           None \<Rightarrow> None
         | Some base \<Rightarrow>
             (case round2 ops (float_mul ops base (float_lit ops 305 (- 2))) of
                Inl err \<Rightarrow> None
              | Inr s \<Rightarrow> Some ((pad6 row)[5 := s])))
      else None)"

subsection \<open>Spreadsheet sync\<close>

text \<open>
  A row with at least three fields whose SKU has base \<open>B\<close> and a given length token; the
  price and the cost a rate loop parses from a row; a value divided by a reference length;
  and the state after the first loop.
\<close>

definition row_of :: "string \<Rightarrow> string \<Rightarrow> string list \<Rightarrow> bool" where
  "row_of token B r = (3 \<le> length r \<and> sku_base (py_strip (r ! 2)) = B
     \<and> length_token (py_strip (r ! 2)) = token)"

definition price_of :: "'f float_ops \<Rightarrow> string list \<Rightarrow> 'f option" where
  "price_of ops r = (if length r > 5 then to_float ops (r ! 5) else None)"

definition cost_of :: "'f float_ops \<Rightarrow> string list \<Rightarrow> 'f option" where
  "cost_of ops r = (if length r > 6 then to_float ops (r ! 6) else None)"

definition per_mm :: "'f float_ops \<Rightarrow> int \<Rightarrow> 'f \<Rightarrow> 'f" where
  "per_mm ops len v = float_div ops v (float_lit ops len 0)"

definition rates_1000 :: "'f float_ops \<Rightarrow> table \<Rightarrow> 'f rates" where
  "rates_1000 ops rows = foldl (rate_step_1000 ops) rates_init rows"

section \<open>Facts about splitting and joining\<close>

lemma py_split_nonempty: "py_split c s \<noteq> []"
  by (induction s) (auto split: list.splits)

lemma py_split_single: "c \<notin> set s \<Longrightarrow> py_split c s = [s]"
  by (induction s) auto

lemma py_split_length: "c \<in> set s \<Longrightarrow> 2 \<le> length (py_split c s)"
proof (induction s)
  case Nil
  then show ?case by simp
next
  case (Cons x xs)
  show ?case
  proof (cases "x = c")
    case True
    then show ?thesis
      using py_split_nonempty [of c xs] by (cases "py_split c xs") auto
  next
    case False
    with Cons show ?thesis
      by (cases "py_split c xs") auto
  qed
qed

lemma py_join_split: "py_join [c] (py_split c s) = s"
proof (induction s)
  case Nil
  then show ?case by simp
next
  case (Cons x xs)
  obtain p ps where ps: "py_split c xs = p # ps"
    using py_split_nonempty [of c xs] by (cases "py_split c xs") auto
  show ?case
  proof (cases "x = c")
    case True
    with Cons ps show ?thesis by simp
  next
    case False
    with Cons ps show ?thesis by (cases ps) auto
  qed
qed

section \<open>The loops of the filter pass in closed form\<close>

lemma clean_step_eq:
  "clean_step st p =
     (if survives p then
        \<lparr>kept = kept st @ [p],
         base_has_3050 = (if row_token p = ''3050'' then (base_has_3050 st)(row_base p \<mapsto> True)
            else base_has_3050 st),
         base_first_row = (if map_of (base_first_row st) (row_base p) = None
            then base_first_row st @ [(row_base p, p)] else base_first_row st)\<rparr>
      else st)"
  by (simp add: clean_step_def survives_def row_token_def row_base_def row_sku_def Let_def)

lemma clean_loop_map: "clean_loop parse lines = foldl clean_step clean_init (map parse lines)"
  by (simp add: clean_loop_def foldl_map)

lemma kept_foldl: "kept (foldl clean_step st rows) = kept st @ filter survives rows"
  by (induction rows arbitrary: st) (simp_all add: clean_step_eq)

lemma has_foldl:
  "base_has_3050 (foldl clean_step st rows) b =
     (if has_3050 (filter survives rows) b then Some True else base_has_3050 st b)"
proof (induction rows arbitrary: st)
  case Nil
  then show ?case by (simp add: has_3050_def)
next
  case (Cons p ps)
  show ?case
    unfolding foldl_Cons Cons.IH
    by (auto simp: clean_step_eq has_3050_def)
qed

lemma map_of_filter_other:
  "b \<noteq> k \<Longrightarrow> map_of (filter (\<lambda>(c, q). c \<noteq> k) xs) b = map_of xs b"
  by (induction xs) auto

lemma map_of_firsts: "map_of (firsts rows) b = List.find (\<lambda>p. row_base p = b) rows"
  by (induction rows) (auto simp: map_of_filter_other)

lemma filter_fresh_snoc:
  "filter (\<lambda>(b, q). map_of (m @ [(k, p)]) b = None) xs
     = filter (\<lambda>(b, q). map_of m b = None) (filter (\<lambda>(b, q). b \<noteq> k) xs)"
  by (induction xs) (auto simp: map_add_def split: option.splits)

lemma filter_fresh_known:
  "map_of m k \<noteq> None \<Longrightarrow>
   filter (\<lambda>(b, q). map_of m b = None) (filter (\<lambda>(b, q). b \<noteq> k) xs)
     = filter (\<lambda>(b, q). map_of m b = None) xs"
  by (induction xs) auto

lemma first_foldl_aux:
  "base_first_row (foldl clean_step st rows) =
     base_first_row st @ filter (\<lambda>(b, q). map_of (base_first_row st) b = None)
        (firsts (filter survives rows))"
proof (induction rows arbitrary: st)
  case Nil
  then show ?case by simp
next
  case (Cons p ps)
  let ?F = "firsts (filter survives ps)"
  let ?m = "base_first_row st"
  show ?case
  proof (cases "survives p")
    case False
    then show ?thesis using Cons.IH [of st] by (simp add: clean_step_eq)
  next
    case surv: True
    have step: "base_first_row (foldl clean_step st (p # ps)) =
        base_first_row (clean_step st p) @
        filter (\<lambda>(b, q). map_of (base_first_row (clean_step st p)) b = None) ?F"
      by (simp only: foldl_Cons Cons.IH)
    show ?thesis
    proof (cases "map_of ?m (row_base p) = None")
      case True
      have st1: "base_first_row (clean_step st p) = ?m @ [(row_base p, p)]"
        using True surv by (simp add: clean_step_eq)
      have "base_first_row (foldl clean_step st (p # ps)) =
          (?m @ [(row_base p, p)]) @
          filter (\<lambda>(b, q). map_of ?m b = None) (filter (\<lambda>(b, q). b \<noteq> row_base p) ?F)"
        by (simp only: step st1 filter_fresh_snoc)
      also have "\<dots> = ?m @ filter (\<lambda>(b, q). map_of ?m b = None)
          (firsts (filter survives (p # ps)))"
        using True surv by simp
      finally show ?thesis .
    next
      case False
      have st1: "base_first_row (clean_step st p) = ?m"
        using False surv by (simp add: clean_step_eq)
      have "base_first_row (foldl clean_step st (p # ps)) =
          ?m @ filter (\<lambda>(b, q). map_of ?m b = None) ?F"
        by (simp only: step st1)
      also have "\<dots> = ?m @ filter (\<lambda>(b, q). map_of ?m b = None)
          (filter (\<lambda>(b, q). b \<noteq> row_base p) ?F)"
        by (simp only: filter_fresh_known [OF False])
      also have "\<dots> = ?m @ filter (\<lambda>(b, q). map_of ?m b = None)
          (firsts (filter survives (p # ps)))"
        using False surv by simp
      finally show ?thesis .
    qed
  qed
qed

lemma clean_state_run:
  "kept (foldl clean_step clean_init rows) = filter survives rows"
  "base_first_row (foldl clean_step clean_init rows) = firsts (filter survives rows)"
  "base_has_3050 (foldl clean_step clean_init rows) b =
     (if has_3050 (filter survives rows) b then Some True else None)"
  by (simp_all add: kept_foldl first_foldl_aux has_foldl clean_init_def)

lemma add_missing_eq:
  "add_missing new st = kept st @ map (\<lambda>(b, fp). new b fp)
     (filter (\<lambda>(b, fp). \<not> (case base_has_3050 st b of None \<Rightarrow> False | Some v \<Rightarrow> v))
        (base_first_row st))"
proof -
  have "foldl (\<lambda>k (base, first_parts).
        if \<not> (case h base of None \<Rightarrow> False | Some v \<Rightarrow> v)
        then k @ [new base first_parts] else k) k0 xs
      = k0 @ map (\<lambda>(b, fp). new b fp)
         (filter (\<lambda>(b, fp). \<not> (case h b of None \<Rightarrow> False | Some v \<Rightarrow> v)) xs)"
    for h :: "string \<rightharpoonup> bool" and k0 xs
    by (induction xs arbitrary: k0) (auto split: option.splits)
  then show ?thesis by (simp add: add_missing_def)
qed

lemma add_missing_run:
  "add_missing new (foldl clean_step clean_init rows) =
     filter survives rows @ map (\<lambda>(b, fp). new b fp) (missing (filter survives rows))"
proof -
  have "(\<lambda>(b, fp). \<not> (case base_has_3050 (foldl clean_step clean_init rows) b of
            None \<Rightarrow> False | Some v \<Rightarrow> v))
      = (\<lambda>(b, fp :: string list). \<not> has_3050 (filter survives rows) b)"
    by (auto simp: clean_state_run fun_eq_iff)
  then show ?thesis
    by (simp add: add_missing_eq clean_state_run missing_def)
qed

section \<open>Stripping, containment and the key of a synthesized SKU\<close>

lemma py_contains_sublist: "py_contains sub s = sublist sub s"
  by (induction s) (auto simp: sublist_Cons_right)

lemma py_strip_id:
  "s = [] \<or> (\<not> py_isspace (hd s) \<and> \<not> py_isspace (last s)) \<Longrightarrow> py_strip s = s"
proof (cases s)
  case Nil
  then show ?thesis by (simp add: py_strip_def)
next
  case (Cons x xs)
  assume "s = [] \<or> (\<not> py_isspace (hd s) \<and> \<not> py_isspace (last s))"
  with Cons have h: "\<not> py_isspace x" and l: "\<not> py_isspace (last s)" by auto
  have 1: "dropWhile py_isspace s = s" using Cons h by simp
  have "hd (rev s) = last s" using Cons by (simp add: hd_rev)
  with l Cons have 2: "dropWhile py_isspace (rev s) = rev s"
    by (cases "rev s") auto
  show ?thesis by (simp add: py_strip_def 1 2)
qed

lemma py_strip_edges:
  "py_strip s = [] \<or> (\<not> py_isspace (hd (py_strip s)) \<and> \<not> py_isspace (last (py_strip s)))"
proof (cases "py_strip s = []")
  case True
  then show ?thesis by simp
next
  case False
  define t where "t = dropWhile py_isspace s"
  define u where "u = dropWhile py_isspace (rev t)"
  have su: "py_strip s = rev u" by (simp add: py_strip_def t_def u_def)
  with False have u: "u \<noteq> []" by simp
  then have hu: "\<not> py_isspace (hd u)" unfolding u_def by (rule hd_dropWhile)
  from u have t: "t \<noteq> []" unfolding u_def by auto
  then have ht: "\<not> py_isspace (hd t)" unfolding t_def by (rule hd_dropWhile)
  have "suffix u (rev t)" unfolding u_def by (rule suffix_dropWhile)
  then obtain v where "rev t = v @ u" by (auto simp: suffix_def)
  with u have "last u = last (rev t)" by simp
  also have "\<dots> = hd t" using t by (simp add: last_rev)
  finally have lu: "\<not> py_isspace (last u)" using ht by simp
  show ?thesis using u hu lu by (simp add: su hd_rev last_rev)
qed

lemma py_strip_idem: "py_strip (py_strip s) = py_strip s"
  using py_strip_edges [of s] by (rule py_strip_id)

lemma py_join_butlast:
  "parts \<noteq> [] \<Longrightarrow>
   py_join sep parts =
     py_join sep (butlast parts) @ (if 2 \<le> length parts then sep else []) @ last parts"
proof (induction sep parts rule: py_join.induct)
  case (3 sep p q ps)
  then show ?case by (cases ps) auto
qed auto

lemma make_key_eq: "make_key_from_sku s = py_join ''-'' (butlast (py_split CHR ''-'' s))"
  by (simp add: make_key_from_sku_def Let_def)

lemma make_key_prefix: "prefix (make_key_from_sku s) s"
proof -
  have "s = py_join ''-'' (py_split CHR ''-'' s)" by (simp add: py_join_split)
  also have "\<dots> = make_key_from_sku s @
      (if 2 \<le> length (py_split CHR ''-'' s) then ''-'' else []) @ last (py_split CHR ''-'' s)"
    unfolding make_key_eq by (rule py_join_butlast) (rule py_split_nonempty)
  finally show ?thesis by (metis prefixI)
qed

lemma py_split_snoc: "c \<notin> set t \<Longrightarrow> py_split c (b @ c # t) = py_split c b @ [t]"
proof (induction b)
  case Nil
  then show ?case by (simp add: py_split_single)
next
  case (Cons x b)
  then show ?case
    using py_split_nonempty [of c b] by (cases "py_split c b") auto
qed

lemma make_key_snoc:
  "CHR ''-'' \<notin> set t \<Longrightarrow> make_key_from_sku (b @ CHR ''-'' # t) = b"
  by (simp add: make_key_eq py_split_snoc py_join_split [of "CHR ''-''", simplified])

lemma last_split_snoc:
  "CHR ''-'' \<notin> set t \<Longrightarrow> last (py_split CHR ''-'' (b @ CHR ''-'' # t)) = t"
  by (simp add: py_split_snoc)

lemma sublist_snoc_char:
  assumes "sublist (t @ [c]) (b @ w)" and "c \<notin> set w"
  shows "sublist (t @ [c]) b"
proof -
  from assms(1) obtain ps ss where eq: "b @ w = (ps @ t @ [c]) @ ss"
    by (auto simp: sublist_def)
  from append_eq_append_conv2 [THEN iffD1, OF eq] obtain us where
    "(b = (ps @ t @ [c]) @ us \<and> us @ w = ss) \<or> (b @ us = ps @ t @ [c] \<and> w = us @ ss)"
    by blast
  then show ?thesis
  proof
    assume "b = (ps @ t @ [c]) @ us \<and> us @ w = ss"
    then show ?thesis by (auto simp: sublist_def)
  next
    assume h: "b @ us = ps @ t @ [c] \<and> w = us @ ss"
    show ?thesis
    proof (cases "us = []")
      case True
      with h have "b = ps @ (t @ [c]) @ []" by simp
      then show ?thesis unfolding sublist_def by blast
    next
      case False
      with h have "last us = c" by (metis last_appendR last_snoc append_assoc)
      with False have "c \<in> set us" by (metis last_in_set)
      with h assms(2) show ?thesis by auto
    qed
  qed
qed

lemma row_base_good:
  "row_base p = [] \<or> \<not> py_isspace (hd (row_base p))"
proof (cases "row_base p = []")
  case True
  then show ?thesis by simp
next
  case False
  have pre: "prefix (row_base p) (row_sku p)"
    unfolding row_base_def by (rule make_key_prefix)
  then obtain r where r: "row_sku p = row_base p @ r" by (auto simp: prefix_def)
  with False have "hd (row_sku p) = hd (row_base p)" and ne: "row_sku p \<noteq> []" by auto
  moreover have "\<not> py_isspace (hd (row_sku p))"
    using py_strip_edges [of "p ! 2"] ne by (simp add: row_sku_def)
  ultimately show ?thesis by simp
qed

lemma strip_synth_sku:
  assumes "b = [] \<or> \<not> py_isspace (hd b)"
  shows "py_strip (b @ ''-3050'') = b @ ''-3050''"
proof (rule py_strip_id)
  have "\<not> py_isspace CHR ''0''" "\<not> py_isspace CHR ''-''"
    by (simp_all add: py_isspace_def)
  with assms show "b @ ''-3050'' = [] \<or>
      (\<not> py_isspace (hd (b @ ''-3050'')) \<and> \<not> py_isspace (last (b @ ''-3050'')))"
    by (cases b) auto
qed

lemma length_pad7: "7 \<le> length (pad7 parts)"
  by (simp add: pad7_def)

lemma new_parts_same: "new_parts_csv b fp = new_parts_txt b fp"
  using length_pad7 [of fp] by (simp add: new_parts_csv_def new_parts_txt_def Let_def)

lemma length_new_parts: "length (new_parts_txt b fp) = max 7 (length fp)"
  by (auto simp: new_parts_txt_def pad7_def)

lemma new_parts_sku: "new_parts_txt b fp ! 2 = b @ ''-3050''"
  by (simp add: new_parts_txt_def pad7_def nth_list_update)

lemma synth_row:
  assumes "b = [] \<or> \<not> py_isspace (hd b)"
  shows "row_sku (new_parts_txt b fp) = b @ ''-3050''"
    and "row_base (new_parts_txt b fp) = b"
    and "row_token (new_parts_txt b fp) = ''3050''"
proof -
  show s: "row_sku (new_parts_txt b fp) = b @ ''-3050''"
    by (simp add: row_sku_def new_parts_sku strip_synth_sku [OF assms])
  have "CHR ''-'' \<notin> set ''3050''" by simp
  then show "row_base (new_parts_txt b fp) = b" "row_token (new_parts_txt b fp) = ''3050''"
    unfolding row_base_def row_token_def s
    using make_key_snoc [of "''3050''" b] last_split_snoc [of "''3050''" b] by simp_all
qed

lemma contains_synth:
  assumes "py_contains (t @ [c]) (row_base p @ ''-3050'')" and "c \<notin> set ''-3050''"
  shows "py_contains (t @ [c]) (row_sku p)"
proof -
  from assms have "sublist (t @ [c]) (row_base p)"
    unfolding py_contains_sublist by (rule sublist_snoc_char)
  then obtain ps ss where "row_base p = ps @ (t @ [c]) @ ss" by (auto simp: sublist_def)
  moreover obtain r where "row_sku p = row_base p @ r"
    using make_key_prefix [of "row_sku p"] by (auto simp: prefix_def row_base_def)
  ultimately have "row_sku p = ps @ (t @ [c]) @ (ss @ r)" by simp
  then show ?thesis unfolding py_contains_sublist sublist_def by blast
qed

lemma synth_survives:
  assumes "survives p"
  shows "survives (new_parts_txt (row_base p) fp)"
proof -
  let ?n = "new_parts_txt (row_base p) fp"
  note g = row_base_good [of p]
  have 1: "\<not> py_contains ''TAP1'' (row_sku ?n)"
    using contains_synth [of "''TAP''" "CHR ''1''" p] assms
    by (auto simp: synth_row [OF g] survives_def)
  have 2: "\<not> py_contains ''TAP2'' (row_sku ?n)"
    using contains_synth [of "''TAP''" "CHR ''2''" p] assms
    by (auto simp: synth_row [OF g] survives_def)
  show ?thesis
    unfolding survives_def using 1 2
    by (simp add: synth_row [OF g] length_new_parts ALLOWED_def)
qed

section \<open>Surviving and synthesized rows\<close>

lemma clean_csv_rows_eq:
  "clean_csv_rows text = sort_kept (surviving_csv text @ synthesized (surviving_csv text))"
proof -
  have "(\<lambda>(b, fp). new_parts_csv b fp) = (\<lambda>(b, fp). new_parts_txt b fp)"
    by (simp add: new_parts_same)
  then show ?thesis
    by (simp add: clean_csv_rows_def clean_loop_map add_missing_run surviving_csv_def
        synthesized_def)
qed

lemma clean_txt_rows_eq:
  "clean_txt_rows text = sort_kept (surviving_txt text @ synthesized (surviving_txt text))"
  by (simp add: clean_txt_rows_def clean_loop_map add_missing_run surviving_txt_def
      synthesized_def)

lemma firsts_mem: "(b, fp) \<in> set (firsts k) \<Longrightarrow> fp \<in> set k \<and> row_base fp = b"
  by (induction k) auto

lemma firsts_keys: "fst ` set (firsts k) = row_base ` set k"
proof (induction k)
  case Nil
  then show ?case by simp
next
  case (Cons p ps)
  have "fst ` set (filter (\<lambda>(b, q). b \<noteq> row_base p) (firsts ps))
      = fst ` set (firsts ps) - {row_base p}"
    by (auto simp: image_iff)
  with Cons show ?case by auto
qed

lemma firsts_distinct: "distinct (map fst (firsts k))"
proof (induction k)
  case Nil
  then show ?case by simp
next
  case (Cons p ps)
  have "distinct (map fst (filter (\<lambda>(b, q). b \<noteq> row_base p) (firsts ps)))"
    using Cons by (rule distinct_map_filter)
  then show ?case by auto
qed

lemma missing_mem:
  "(b, fp) \<in> set (missing k) \<Longrightarrow> fp \<in> set k \<and> row_base fp = b \<and> \<not> has_3050 k b"
  by (auto simp: missing_def dest: firsts_mem)

lemma length_filter_key:
  "distinct (map fst xs) \<Longrightarrow>
   length (filter (\<lambda>x. fst x = b) xs) = (if b \<in> fst ` set xs then 1 else 0)"
  by (induction xs) (auto simp: filter_empty_conv image_iff)

lemma count_missing:
  "length (filter (\<lambda>x. fst x = b) (missing k)) =
     (if b \<in> row_base ` set k \<and> \<not> has_3050 k b then 1 else 0)"
proof -
  have d: "distinct (map fst (missing k))"
    unfolding missing_def using firsts_distinct by (rule distinct_map_filter)
  have "fst ` set (missing k) = {b \<in> fst ` set (firsts k). \<not> has_3050 k b}"
    unfolding missing_def by (auto simp: image_iff)
  then have "fst ` set (missing k) = {b \<in> row_base ` set k. \<not> has_3050 k b}"
    by (simp only: firsts_keys)
  then show ?thesis by (simp add: length_filter_key [OF d])
qed

lemma survives_synthesized:
  assumes "\<forall>p \<in> set k. survives p" and "q \<in> set (synthesized k)"
  shows "survives q \<and> (\<exists>(b, fp) \<in> set (missing k). q = new_parts_txt b fp
      \<and> row_base q = b \<and> row_token q = ''3050'')"
proof -
  from assms(2) obtain b fp where m: "(b, fp) \<in> set (missing k)" and q: "q = new_parts_txt b fp"
    by (auto simp: synthesized_def)
  from missing_mem [OF m] have fp: "fp \<in> set k" and b: "row_base fp = b" by auto
  with assms(1) have s: "survives fp" by blast
  have "survives q" unfolding q b [symmetric] using s by (rule synth_survives)
  moreover have "row_base q = b" "row_token q = ''3050''"
    unfolding q b [symmetric] using synth_row [OF row_base_good [of fp]] by auto
  ultimately show ?thesis using m q by blast
qed

lemma count_synthesized:
  assumes "\<forall>p \<in> set k. survives p"
  shows "count_3050 (synthesized k) b =
     (if b \<in> row_base ` set k \<and> \<not> has_3050 k b then 1 else 0)"
proof -
  have eq: "row_base (new_parts_txt c fp) = c" "row_token (new_parts_txt c fp) = ''3050''"
    if "(c, fp) \<in> set (missing k)" for c fp
  proof -
    from missing_mem [OF that] have "row_base fp = c" by simp
    then show "row_base (new_parts_txt c fp) = c" "row_token (new_parts_txt c fp) = ''3050''"
      using synth_row [OF row_base_good [of fp]] by auto
  qed
  have "count_3050 (synthesized k) b =
      length (filter ((\<lambda>p. row_base p = b \<and> row_token p = ''3050'') \<circ>
        (\<lambda>(c, fp). new_parts_txt c fp)) (missing k))"
    by (simp add: count_3050_def synthesized_def filter_map)
  also have "\<dots> = length (filter (\<lambda>x. fst x = b) (missing k))"
    by (rule arg_cong [where f = length], rule filter_cong) (auto simp: eq)
  finally show ?thesis by (simp add: count_missing)
qed

lemma count_zero_iff: "count_3050 k b = 0 \<longleftrightarrow> \<not> has_3050 k b"
  by (auto simp: count_3050_def has_3050_def filter_empty_conv)

lemma count_sort_kept: "count_3050 (sort_kept k) b = count_3050 k b"
proof -
  have "length (filter P (sort_kept k)) = length (filter P k)" for P
    by (simp add: sort_kept_def filter_sort)
  then show ?thesis
    by (simp add: count_3050_def)
qed

lemma count_clean:
  assumes "\<forall>p \<in> set k. survives p"
  shows "count_3050 (sort_kept (k @ synthesized k)) b =
     (if b \<in> row_base ` set k then max 1 (count_3050 k b) else 0)"
proof -
  have "count_3050 (sort_kept (k @ synthesized k)) b = count_3050 k b + count_3050 (synthesized k) b"
    by (simp add: count_sort_kept) (simp add: count_3050_def)
  moreover have "count_3050 k b = 0" if "b \<notin> row_base ` set k"
    using that by (auto simp: count_3050_def filter_empty_conv)
  ultimately show ?thesis
    using count_zero_iff [of k b] by (auto simp: count_synthesized [OF assms])
qed

lemma bases_clean:
  assumes "\<forall>p \<in> set k. survives p"
  shows "row_base ` set (sort_kept (k @ synthesized k)) = row_base ` set k"
proof -
  have "row_base q \<in> row_base ` set k" if "q \<in> set (synthesized k)" for q
    using survives_synthesized [OF assms that] by (auto dest!: missing_mem)
  then show ?thesis by (auto simp: sort_kept_def)
qed

section \<open>The 3050 row of every base, and the order of the output\<close>

lemma find_firsts_missing:
  assumes "b \<in> row_base ` set k" and "\<not> has_3050 k b"
  shows "\<exists>fp. List.find (\<lambda>p. row_base p = b) k = Some fp \<and> (b, fp) \<in> set (missing k)"
proof -
  from assms(1) have "b \<in> fst ` set (firsts k)" by (simp only: firsts_keys)
  then obtain fp where m: "(b, fp) \<in> set (firsts k)" by force
  with firsts_distinct [of k] have "map_of (firsts k) b = Some fp" by simp
  then have "List.find (\<lambda>p. row_base p = b) k = Some fp" by (simp add: map_of_firsts)
  moreover have "(b, fp) \<in> set (missing k)" using m assms(2) by (simp add: missing_def)
  ultimately show ?thesis by blast
qed

lemma survives_surviving_csv: "\<forall>p \<in> set (surviving_csv text). survives p"
  by (simp add: surviving_csv_def)

lemma survives_surviving_txt: "\<forall>p \<in> set (surviving_txt text). survives p"
  by (simp add: surviving_txt_def)

lemma new_parts_fields:
  assumes "3 \<le> length fp"
  shows "new_parts_txt b fp =
     map (\<lambda>j. if j = 2 then b @ ''-3050'' else if 3 \<le> j \<and> j \<le> 6 then [] else fp ! j)
       [0 ..< max 7 (length fp)]"
proof (rule nth_equalityI)
  show "length (new_parts_txt b fp) =
      length (map (\<lambda>j. if j = 2 then b @ ''-3050'' else if 3 \<le> j \<and> j \<le> 6 then [] else fp ! j)
       [0 ..< max 7 (length fp)])"
    by (simp add: length_new_parts)
next
  fix j assume "j < length (new_parts_txt b fp)"
  then have j: "j < max 7 (length fp)" by (simp add: length_new_parts)
  then show "new_parts_txt b fp ! j =
      map (\<lambda>j. if j = 2 then b @ ''-3050'' else if 3 \<le> j \<and> j \<le> 6 then [] else fp ! j)
       [0 ..< max 7 (length fp)] ! j"
    using assms by (auto simp: new_parts_txt_def pad7_def nth_list_update nth_append)
qed

lemma filter_sort_kept: "filter P (sort_kept k) = sort_kept (filter P k)"
  by (simp add: sort_kept_def filter_sort)

lemma filter_3050_synthesized:
  assumes "\<forall>p \<in> set k. survives p"
  shows "filter (\<lambda>p. row_base p = b \<and> row_token p = ''3050'') (synthesized k) =
     (case List.find (\<lambda>p. row_base p = b) k of
        None \<Rightarrow> []
      | Some fp \<Rightarrow> if has_3050 k b then [] else [new_parts_txt b fp])"
proof (cases "b \<in> row_base ` set k \<and> \<not> has_3050 k b")
  case True
  then have b: "b \<in> row_base ` set k" and n: "\<not> has_3050 k b" by simp_all
  from find_firsts_missing [OF b n] obtain fp where
    f: "List.find (\<lambda>p. row_base p = b) k = Some fp" and m: "(b, fp) \<in> set (missing k)"
    by blast
  let ?P = "\<lambda>p. row_base p = b \<and> row_token p = ''3050''"
  from missing_mem [OF m] have "row_base fp = b" by simp
  then have "?P (new_parts_txt b fp)"
    using synth_row [OF row_base_good [of fp]] by auto
  moreover from m have "new_parts_txt b fp \<in> set (synthesized k)"
    by (force simp: synthesized_def)
  ultimately have mem: "new_parts_txt b fp \<in> set (filter ?P (synthesized k))" by simp
  have "length (filter ?P (synthesized k)) = 1"
    using count_synthesized [OF assms, of b] True by (simp add: count_3050_def)
  then obtain x where x: "filter ?P (synthesized k) = [x]"
    by (cases "filter ?P (synthesized k)") auto
  with mem have "x = new_parts_txt b fp" by simp
  with x f n show ?thesis by simp
next
  case False
  let ?P = "\<lambda>p. row_base p = b \<and> row_token p = ''3050''"
  have "length (filter ?P (synthesized k)) = 0"
    using count_synthesized [OF assms, of b] False by (simp add: count_3050_def)
  then have e: "filter ?P (synthesized k) = []" by simp
  show ?thesis
  proof (cases "List.find (\<lambda>p. row_base p = b) k")
    case None
    with e show ?thesis by simp
  next
    case (Some fp)
    then have "fp \<in> set k \<and> row_base fp = b" by (auto simp: find_Some_iff)
    then have "b \<in> row_base ` set k" by blast
    with False have "has_3050 k b" by simp
    with e Some show ?thesis by simp
  qed
qed

lemma clean_3050_rows:
  assumes s: "\<forall>p \<in> set k. survives p"
    and b: "b \<in> row_base ` set (sort_kept (k @ synthesized k))"
  shows "count_3050 (sort_kept (k @ synthesized k)) b = max 1 (count_3050 (k) b) \<and>
         (count_3050 (k) b \<noteq> 0 \<longrightarrow>
            filter (\<lambda>p. row_base p = b \<and> row_token p = ''3050'') (sort_kept (k @ synthesized k)) =
              sort_kept (filter (\<lambda>p. row_base p = b \<and> row_token p = ''3050'') (k))) \<and>
         (count_3050 (k) b = 0 \<longrightarrow>
            (\<exists>fp. List.find (\<lambda>p. row_base p = b) (k) = Some fp \<and>
                  filter (\<lambda>p. row_base p = b \<and> row_token p = ''3050'') (sort_kept (k @ synthesized k)) =
                    [map (\<lambda>j. if j = 2 then b @ ''-3050''
                               else if 3 \<le> j \<and> j \<le> 6 then [] else fp ! j)
                       [0 ..< max 7 (length fp)]]))"
proof -
  let ?out = "sort_kept (k @ synthesized k)"
  let ?P = "\<lambda>p. row_base p = b \<and> row_token p = ''3050''"
  from b have bk: "b \<in> row_base ` set k"
    by (simp only: bases_clean [OF s])
  then have 1: "count_3050 ?out b = max 1 (count_3050 k b)"
    by (simp only: count_clean [OF s] if_True)
  have out: "filter ?P ?out = sort_kept (filter ?P k @ filter ?P (synthesized k))"
    by (simp only: filter_sort_kept filter_append)
  have 2: "filter ?P ?out = sort_kept (filter ?P k)" if "count_3050 k b \<noteq> 0"
  proof -
    from that have "has_3050 k b" by (simp add: count_zero_iff)
    then have "filter ?P (synthesized k) = []"
      by (simp add: filter_3050_synthesized [OF s] split: option.splits)
    then show ?thesis by (simp only: out append_Nil2)
  qed
  have 3: "\<exists>fp. List.find (\<lambda>p. row_base p = b) k = Some fp \<and>
      filter ?P ?out =
        [map (\<lambda>j. if j = 2 then b @ ''-3050'' else if 3 \<le> j \<and> j \<le> 6 then [] else fp ! j)
           [0 ..< max 7 (length fp)]]" if z: "count_3050 k b = 0"
  proof -
    from z have n: "\<not> has_3050 k b" by (simp add: count_zero_iff)
    from find_firsts_missing [OF bk n] obtain fp where
      f: "List.find (\<lambda>p. row_base p = b) k = Some fp" and m: "(b, fp) \<in> set (missing k)"
      by blast
    from missing_mem [OF m] s have "survives fp" by blast
    then have len: "3 \<le> length fp" by (simp add: survives_def)
    from z have e: "filter ?P k = []" by (simp add: count_3050_def)
    have "filter ?P (synthesized k) = [new_parts_txt b fp]"
      using f n by (simp add: filter_3050_synthesized [OF s])
    then have "filter ?P ?out = sort_kept [new_parts_txt b fp]"
      by (simp only: out e append_Nil)
    then have "filter ?P ?out = [new_parts_txt b fp]"
      by (simp add: sort_kept_def)
    with f show ?thesis by (simp only: new_parts_fields [OF len]) blast
  qed
  from 1 2 3 show ?thesis by blast
qed

text \<open>
  C3 (as amended). For every base profile key \<open>b\<close> present in the rows the filter pass
  writes, comma-delimited or tab-delimited, the number of written rows with that base and
  length token \<open>3050\<close> is the number of surviving input rows with that base and token, or
  one when there is none. When there are such surviving rows, the written rows with base
  \<open>b\<close> and token \<open>3050\<close> are exactly those, in the order of the sort. When there is none,
  the only written row with base \<open>b\<close> and token \<open>3050\<close> is the synthesized one: with \<open>fp\<close> the
  first surviving row of the base, it has \<open>max 7 (length fp)\<close> fields, field 2 is \<open>b-3050\<close>,
  fields 3 to 6 are empty, and every other field is the field of \<open>fp\<close> at that index.
\<close>

theorem clean_3050_per_base:
  "(b \<in> row_base ` set (clean_csv_rows csv_text) \<longrightarrow>
      count_3050 (clean_csv_rows csv_text) b = max 1 (count_3050 (surviving_csv csv_text) b) \<and>
      (count_3050 (surviving_csv csv_text) b \<noteq> 0 \<longrightarrow>
         filter (\<lambda>p. row_base p = b \<and> row_token p = ''3050'') (clean_csv_rows csv_text) =
           sort_kept (filter (\<lambda>p. row_base p = b \<and> row_token p = ''3050'') (surviving_csv csv_text))) \<and>
      (count_3050 (surviving_csv csv_text) b = 0 \<longrightarrow>
         (\<exists>fp. List.find (\<lambda>p. row_base p = b) (surviving_csv csv_text) = Some fp \<and>
               filter (\<lambda>p. row_base p = b \<and> row_token p = ''3050'') (clean_csv_rows csv_text) =
                 [map (\<lambda>j. if j = 2 then b @ ''-3050''
                            else if 3 \<le> j \<and> j \<le> 6 then [] else fp ! j)
                    [0 ..< max 7 (length fp)]]))) \<and>
   (b \<in> row_base ` set (clean_txt_rows tab_text) \<longrightarrow>
      count_3050 (clean_txt_rows tab_text) b = max 1 (count_3050 (surviving_txt tab_text) b) \<and>
      (count_3050 (surviving_txt tab_text) b \<noteq> 0 \<longrightarrow>
         filter (\<lambda>p. row_base p = b \<and> row_token p = ''3050'') (clean_txt_rows tab_text) =
           sort_kept (filter (\<lambda>p. row_base p = b \<and> row_token p = ''3050'') (surviving_txt tab_text))) \<and>
      (count_3050 (surviving_txt tab_text) b = 0 \<longrightarrow>
         (\<exists>fp. List.find (\<lambda>p. row_base p = b) (surviving_txt tab_text) = Some fp \<and>
               filter (\<lambda>p. row_base p = b \<and> row_token p = ''3050'') (clean_txt_rows tab_text) =
                 [map (\<lambda>j. if j = 2 then b @ ''-3050''
                            else if 3 \<le> j \<and> j \<le> 6 then [] else fp ! j)
                    [0 ..< max 7 (length fp)]])))"
proof (rule conjI; rule impI)
  assume "b \<in> row_base ` set (clean_csv_rows csv_text)"
  then have h: "b \<in> row_base ` set (sort_kept (surviving_csv csv_text @ synthesized (surviving_csv csv_text)))"
    by (simp only: clean_csv_rows_eq)
  show "count_3050 (clean_csv_rows csv_text) b = max 1 (count_3050 (surviving_csv csv_text) b) \<and>
      (count_3050 (surviving_csv csv_text) b \<noteq> 0 \<longrightarrow>
         filter (\<lambda>p. row_base p = b \<and> row_token p = ''3050'') (clean_csv_rows csv_text) =
           sort_kept (filter (\<lambda>p. row_base p = b \<and> row_token p = ''3050'') (surviving_csv csv_text))) \<and>
      (count_3050 (surviving_csv csv_text) b = 0 \<longrightarrow>
         (\<exists>fp. List.find (\<lambda>p. row_base p = b) (surviving_csv csv_text) = Some fp \<and>
               filter (\<lambda>p. row_base p = b \<and> row_token p = ''3050'') (clean_csv_rows csv_text) =
                 [map (\<lambda>j. if j = 2 then b @ ''-3050''
                            else if 3 \<le> j \<and> j \<le> 6 then [] else fp ! j)
                    [0 ..< max 7 (length fp)]]))"
    unfolding clean_csv_rows_eq by (rule clean_3050_rows [OF survives_surviving_csv h])
next
  assume "b \<in> row_base ` set (clean_txt_rows tab_text)"
  then have h: "b \<in> row_base ` set (sort_kept (surviving_txt tab_text @ synthesized (surviving_txt tab_text)))"
    by (simp only: clean_txt_rows_eq)
  show "count_3050 (clean_txt_rows tab_text) b = max 1 (count_3050 (surviving_txt tab_text) b) \<and>
      (count_3050 (surviving_txt tab_text) b \<noteq> 0 \<longrightarrow>
         filter (\<lambda>p. row_base p = b \<and> row_token p = ''3050'') (clean_txt_rows tab_text) =
           sort_kept (filter (\<lambda>p. row_base p = b \<and> row_token p = ''3050'') (surviving_txt tab_text))) \<and>
      (count_3050 (surviving_txt tab_text) b = 0 \<longrightarrow>
         (\<exists>fp. List.find (\<lambda>p. row_base p = b) (surviving_txt tab_text) = Some fp \<and>
               filter (\<lambda>p. row_base p = b \<and> row_token p = ''3050'') (clean_txt_rows tab_text) =
                 [map (\<lambda>j. if j = 2 then b @ ''-3050''
                            else if 3 \<le> j \<and> j \<le> 6 then [] else fp ! j)
                    [0 ..< max 7 (length fp)]]))"
    unfolding clean_txt_rows_eq by (rule clean_3050_rows [OF survives_surviving_txt h])
qed

text \<open>
  A run of each pass on the same three rows, with both cases. Base \<open>X\<close> has a \<open>3050\<close> row,
  which is kept as it is. Base \<open>Y\<close> has none: its first row has eight fields, of which
  fields 3 to 6 hold text, and the synthesized row keeps fields 0, 1 and 7, has the SKU
  \<open>Y-3050\<close> and has fields 3 to 6 empty.
\<close>

lemma eval_lines_three:
  "nonblank_lines ''1,d,X-1000,a,b,9.5,4,z\<newline>2,d,X-3050,,,30,\<newline>3,e,Y-1000,a,b,9.5,4,z\<newline>'' =
     [''1,d,X-1000,a,b,9.5,4,z'', ''2,d,X-3050,,,30,'', ''3,e,Y-1000,a,b,9.5,4,z'']"
  by code_simp

lemma eval_surviving_three:
  "surviving_csv ''1,d,X-1000,a,b,9.5,4,z\<newline>2,d,X-3050,,,30,\<newline>3,e,Y-1000,a,b,9.5,4,z\<newline>'' =
     [[''1'', ''d'', ''X-1000'', ''a'', ''b'', ''9.5'', ''4'', ''z''],
      [''2'', ''d'', ''X-3050'', [], [], ''30'', []],
      [''3'', ''e'', ''Y-1000'', ''a'', ''b'', ''9.5'', ''4'', ''z'']]"
  unfolding surviving_csv_def eval_lines_three by code_simp

lemma eval_surviving_three_txt:
  "surviving_txt tab_example_bases =
     [[''1'', ''d'', ''X-1000'', ''a'', ''b'', ''9.5'', ''4'', ''z''],
      [''2'', ''d'', ''X-3050'', [], [], ''30'', []],
      [''3'', ''e'', ''Y-1000'', ''a'', ''b'', ''9.5'', ''4'', ''z'']]"
  by code_simp

lemma eval_synthesized_three:
  "synthesized
     [[''1'', ''d'', ''X-1000'', ''a'', ''b'', ''9.5'', ''4'', ''z''],
      [''2'', ''d'', ''X-3050'', [], [], ''30'', []],
      [''3'', ''e'', ''Y-1000'', ''a'', ''b'', ''9.5'', ''4'', ''z'']] =
     [[''3'', ''e'', ''Y-3050'', [], [], [], [], ''z'']]"
  by code_simp

lemma eval_sorted_three:
  "sort_kept
     ([[''1'', ''d'', ''X-1000'', ''a'', ''b'', ''9.5'', ''4'', ''z''],
      [''2'', ''d'', ''X-3050'', [], [], ''30'', []],
      [''3'', ''e'', ''Y-1000'', ''a'', ''b'', ''9.5'', ''4'', ''z'']] @
      [[''3'', ''e'', ''Y-3050'', [], [], [], [], ''z'']]) =
     [[''1'', ''d'', ''X-1000'', ''a'', ''b'', ''9.5'', ''4'', ''z''],
      [''2'', ''d'', ''X-3050'', [], [], ''30'', []],
      [''3'', ''e'', ''Y-1000'', ''a'', ''b'', ''9.5'', ''4'', ''z''],
      [''3'', ''e'', ''Y-3050'', [], [], [], [], ''z'']]"
  by code_simp

lemma eval_clean_three:
  "clean_csv_rows ''1,d,X-1000,a,b,9.5,4,z\<newline>2,d,X-3050,,,30,\<newline>3,e,Y-1000,a,b,9.5,4,z\<newline>'' =
     [[''1'', ''d'', ''X-1000'', ''a'', ''b'', ''9.5'', ''4'', ''z''],
      [''2'', ''d'', ''X-3050'', [], [], ''30'', []],
      [''3'', ''e'', ''Y-1000'', ''a'', ''b'', ''9.5'', ''4'', ''z''],
      [''3'', ''e'', ''Y-3050'', [], [], [], [], ''z'']]"
  unfolding clean_csv_rows_eq eval_surviving_three eval_synthesized_three by (rule eval_sorted_three)

lemma eval_clean_three_txt:
  "clean_txt_rows tab_example_bases =
     [[''1'', ''d'', ''X-1000'', ''a'', ''b'', ''9.5'', ''4'', ''z''],
      [''2'', ''d'', ''X-3050'', [], [], ''30'', []],
      [''3'', ''e'', ''Y-1000'', ''a'', ''b'', ''9.5'', ''4'', ''z''],
      [''3'', ''e'', ''Y-3050'', [], [], [], [], ''z'']]"
  unfolding clean_txt_rows_eq eval_surviving_three_txt eval_synthesized_three
  by (rule eval_sorted_three)

lemma eval_rows_three:
  "row_base [''1'', ''d'', ''X-1000'', ''a'', ''b'', ''9.5'', ''4'', ''z''] = ''X''"
  "row_base [''3'', ''e'', ''Y-1000'', ''a'', ''b'', ''9.5'', ''4'', ''z''] = ''Y''"
  "count_3050
     [[''1'', ''d'', ''X-1000'', ''a'', ''b'', ''9.5'', ''4'', ''z''],
      [''2'', ''d'', ''X-3050'', [], [], ''30'', []],
      [''3'', ''e'', ''Y-1000'', ''a'', ''b'', ''9.5'', ''4'', ''z'']] ''X'' = 1"
  "count_3050
     [[''1'', ''d'', ''X-1000'', ''a'', ''b'', ''9.5'', ''4'', ''z''],
      [''2'', ''d'', ''X-3050'', [], [], ''30'', []],
      [''3'', ''e'', ''Y-1000'', ''a'', ''b'', ''9.5'', ''4'', ''z'']] ''Y'' = 0"
  "List.find (\<lambda>p. row_base p = ''Y'')
     [[''1'', ''d'', ''X-1000'', ''a'', ''b'', ''9.5'', ''4'', ''z''],
      [''2'', ''d'', ''X-3050'', [], [], ''30'', []],
      [''3'', ''e'', ''Y-1000'', ''a'', ''b'', ''9.5'', ''4'', ''z'']] =
     Some [''3'', ''e'', ''Y-1000'', ''a'', ''b'', ''9.5'', ''4'', ''z'']"
  "sort_kept (filter (\<lambda>p. row_base p = ''X'' \<and> row_token p = ''3050'')
     [[''1'', ''d'', ''X-1000'', ''a'', ''b'', ''9.5'', ''4'', ''z''],
      [''2'', ''d'', ''X-3050'', [], [], ''30'', []],
      [''3'', ''e'', ''Y-1000'', ''a'', ''b'', ''9.5'', ''4'', ''z'']]) =
     [[''2'', ''d'', ''X-3050'', [], [], ''30'', []]]"
  "map (\<lambda>j. if j = 2 then ''Y'' @ ''-3050'' else if 3 \<le> j \<and> j \<le> 6 then []
              else [''3'', ''e'', ''Y-1000'', ''a'', ''b'', ''9.5'', ''4'', ''z''] ! j)
     [0 ..< max 7 (length [''3'', ''e'', ''Y-1000'', ''a'', ''b'', ''9.5'', ''4'', ''z''])] =
     [''3'', ''e'', ''Y-3050'', [], [], [], [], ''z'']"
  by code_simp+

theorem clean_3050_per_base_witness:
  "(''X'' \<in> row_base ` set (clean_csv_rows ''1,d,X-1000,a,b,9.5,4,z\<newline>2,d,X-3050,,,30,\<newline>3,e,Y-1000,a,b,9.5,4,z\<newline>'') \<and>
   count_3050 (surviving_csv ''1,d,X-1000,a,b,9.5,4,z\<newline>2,d,X-3050,,,30,\<newline>3,e,Y-1000,a,b,9.5,4,z\<newline>'') ''X'' = 1 \<and>
   count_3050 (clean_csv_rows ''1,d,X-1000,a,b,9.5,4,z\<newline>2,d,X-3050,,,30,\<newline>3,e,Y-1000,a,b,9.5,4,z\<newline>'') ''X'' = 1 \<and>
   filter (\<lambda>p. row_base p = ''X'' \<and> row_token p = ''3050'') (clean_csv_rows ''1,d,X-1000,a,b,9.5,4,z\<newline>2,d,X-3050,,,30,\<newline>3,e,Y-1000,a,b,9.5,4,z\<newline>'') =
     [[''2'', ''d'', ''X-3050'', [], [], ''30'', []]] \<and>
   ''Y'' \<in> row_base ` set (clean_csv_rows ''1,d,X-1000,a,b,9.5,4,z\<newline>2,d,X-3050,,,30,\<newline>3,e,Y-1000,a,b,9.5,4,z\<newline>'') \<and>
   count_3050 (surviving_csv ''1,d,X-1000,a,b,9.5,4,z\<newline>2,d,X-3050,,,30,\<newline>3,e,Y-1000,a,b,9.5,4,z\<newline>'') ''Y'' = 0 \<and>
   count_3050 (clean_csv_rows ''1,d,X-1000,a,b,9.5,4,z\<newline>2,d,X-3050,,,30,\<newline>3,e,Y-1000,a,b,9.5,4,z\<newline>'') ''Y'' = 1 \<and>
   List.find (\<lambda>p. row_base p = ''Y'') (surviving_csv ''1,d,X-1000,a,b,9.5,4,z\<newline>2,d,X-3050,,,30,\<newline>3,e,Y-1000,a,b,9.5,4,z\<newline>'') =
     Some [''3'', ''e'', ''Y-1000'', ''a'', ''b'', ''9.5'', ''4'', ''z''] \<and>
   filter (\<lambda>p. row_base p = ''Y'' \<and> row_token p = ''3050'') (clean_csv_rows ''1,d,X-1000,a,b,9.5,4,z\<newline>2,d,X-3050,,,30,\<newline>3,e,Y-1000,a,b,9.5,4,z\<newline>'') =
     [[''3'', ''e'', ''Y-3050'', [], [], [], [], ''z'']]) \<and>
   (''X'' \<in> row_base ` set (clean_txt_rows tab_example_bases) \<and>
   count_3050 (surviving_txt tab_example_bases) ''X'' = 1 \<and>
   count_3050 (clean_txt_rows tab_example_bases) ''X'' = 1 \<and>
   filter (\<lambda>p. row_base p = ''X'' \<and> row_token p = ''3050'') (clean_txt_rows tab_example_bases) =
     [[''2'', ''d'', ''X-3050'', [], [], ''30'', []]] \<and>
   ''Y'' \<in> row_base ` set (clean_txt_rows tab_example_bases) \<and>
   count_3050 (surviving_txt tab_example_bases) ''Y'' = 0 \<and>
   count_3050 (clean_txt_rows tab_example_bases) ''Y'' = 1 \<and>
   List.find (\<lambda>p. row_base p = ''Y'') (surviving_txt tab_example_bases) =
     Some [''3'', ''e'', ''Y-1000'', ''a'', ''b'', ''9.5'', ''4'', ''z''] \<and>
   filter (\<lambda>p. row_base p = ''Y'' \<and> row_token p = ''3050'') (clean_txt_rows tab_example_bases) =
     [[''3'', ''e'', ''Y-3050'', [], [], [], [], ''z'']])"
proof -
  have hxc: "''X'' \<in> row_base ` set (clean_csv_rows ''1,d,X-1000,a,b,9.5,4,z\<newline>2,d,X-3050,,,30,\<newline>3,e,Y-1000,a,b,9.5,4,z\<newline>'')"
    unfolding eval_clean_three by (simp add: eval_rows_three(1))
  have hyc: "''Y'' \<in> row_base ` set (clean_csv_rows ''1,d,X-1000,a,b,9.5,4,z\<newline>2,d,X-3050,,,30,\<newline>3,e,Y-1000,a,b,9.5,4,z\<newline>'')"
    unfolding eval_clean_three by (simp add: eval_rows_three(2))
  have cxc: "count_3050 (surviving_csv ''1,d,X-1000,a,b,9.5,4,z\<newline>2,d,X-3050,,,30,\<newline>3,e,Y-1000,a,b,9.5,4,z\<newline>'') ''X'' = 1"
    unfolding eval_surviving_three by (rule eval_rows_three(3))
  have cyc: "count_3050 (surviving_csv ''1,d,X-1000,a,b,9.5,4,z\<newline>2,d,X-3050,,,30,\<newline>3,e,Y-1000,a,b,9.5,4,z\<newline>'') ''Y'' = 0"
    unfolding eval_surviving_three by (rule eval_rows_three(4))
  have fyc: "List.find (\<lambda>p. row_base p = ''Y'') (surviving_csv ''1,d,X-1000,a,b,9.5,4,z\<newline>2,d,X-3050,,,30,\<newline>3,e,Y-1000,a,b,9.5,4,z\<newline>'') =
      Some [''3'', ''e'', ''Y-1000'', ''a'', ''b'', ''9.5'', ''4'', ''z'']"
    unfolding eval_surviving_three by (rule eval_rows_three(5))
  note xc = clean_3050_per_base [where csv_text = "''1,d,X-1000,a,b,9.5,4,z\<newline>2,d,X-3050,,,30,\<newline>3,e,Y-1000,a,b,9.5,4,z\<newline>''", of "''X''", THEN conjunct1, THEN mp, OF hxc]
  note yc = clean_3050_per_base [where csv_text = "''1,d,X-1000,a,b,9.5,4,z\<newline>2,d,X-3050,,,30,\<newline>3,e,Y-1000,a,b,9.5,4,z\<newline>''", of "''Y''", THEN conjunct1, THEN mp, OF hyc]
  from xc cxc have x1c: "count_3050 (clean_csv_rows ''1,d,X-1000,a,b,9.5,4,z\<newline>2,d,X-3050,,,30,\<newline>3,e,Y-1000,a,b,9.5,4,z\<newline>'') ''X'' = 1" by simp
  from cxc have "count_3050 (surviving_csv ''1,d,X-1000,a,b,9.5,4,z\<newline>2,d,X-3050,,,30,\<newline>3,e,Y-1000,a,b,9.5,4,z\<newline>'') ''X'' \<noteq> 0" by simp
  with xc have "filter (\<lambda>p. row_base p = ''X'' \<and> row_token p = ''3050'') (clean_csv_rows ''1,d,X-1000,a,b,9.5,4,z\<newline>2,d,X-3050,,,30,\<newline>3,e,Y-1000,a,b,9.5,4,z\<newline>'') =
      sort_kept (filter (\<lambda>p. row_base p = ''X'' \<and> row_token p = ''3050'') (surviving_csv ''1,d,X-1000,a,b,9.5,4,z\<newline>2,d,X-3050,,,30,\<newline>3,e,Y-1000,a,b,9.5,4,z\<newline>''))"
    by blast
  then have x2c: "filter (\<lambda>p. row_base p = ''X'' \<and> row_token p = ''3050'') (clean_csv_rows ''1,d,X-1000,a,b,9.5,4,z\<newline>2,d,X-3050,,,30,\<newline>3,e,Y-1000,a,b,9.5,4,z\<newline>'') =
      [[''2'', ''d'', ''X-3050'', [], [], ''30'', []]]"
    unfolding eval_surviving_three by (simp only: eval_rows_three(6))
  from yc cyc have y1c: "count_3050 (clean_csv_rows ''1,d,X-1000,a,b,9.5,4,z\<newline>2,d,X-3050,,,30,\<newline>3,e,Y-1000,a,b,9.5,4,z\<newline>'') ''Y'' = 1" by simp
  from yc cyc obtain fp where f: "List.find (\<lambda>p. row_base p = ''Y'') (surviving_csv ''1,d,X-1000,a,b,9.5,4,z\<newline>2,d,X-3050,,,30,\<newline>3,e,Y-1000,a,b,9.5,4,z\<newline>'') = Some fp"
    and r: "filter (\<lambda>p. row_base p = ''Y'' \<and> row_token p = ''3050'') (clean_csv_rows ''1,d,X-1000,a,b,9.5,4,z\<newline>2,d,X-3050,,,30,\<newline>3,e,Y-1000,a,b,9.5,4,z\<newline>'') =
        [map (\<lambda>j. if j = 2 then ''Y'' @ ''-3050'' else if 3 \<le> j \<and> j \<le> 6 then [] else fp ! j)
           [0 ..< max 7 (length fp)]]"
    by blast
  from f fyc have "fp = [''3'', ''e'', ''Y-1000'', ''a'', ''b'', ''9.5'', ''4'', ''z'']" by simp
  with r have y2c: "filter (\<lambda>p. row_base p = ''Y'' \<and> row_token p = ''3050'') (clean_csv_rows ''1,d,X-1000,a,b,9.5,4,z\<newline>2,d,X-3050,,,30,\<newline>3,e,Y-1000,a,b,9.5,4,z\<newline>'') =
      [[''3'', ''e'', ''Y-3050'', [], [], [], [], ''z'']]"
    by (simp only: eval_rows_three(7))
  from hxc cxc x1c x2c hyc cyc y1c fyc y2c
  have c: "''X'' \<in> row_base ` set (clean_csv_rows ''1,d,X-1000,a,b,9.5,4,z\<newline>2,d,X-3050,,,30,\<newline>3,e,Y-1000,a,b,9.5,4,z\<newline>'') \<and>
   count_3050 (surviving_csv ''1,d,X-1000,a,b,9.5,4,z\<newline>2,d,X-3050,,,30,\<newline>3,e,Y-1000,a,b,9.5,4,z\<newline>'') ''X'' = 1 \<and>
   count_3050 (clean_csv_rows ''1,d,X-1000,a,b,9.5,4,z\<newline>2,d,X-3050,,,30,\<newline>3,e,Y-1000,a,b,9.5,4,z\<newline>'') ''X'' = 1 \<and>
   filter (\<lambda>p. row_base p = ''X'' \<and> row_token p = ''3050'') (clean_csv_rows ''1,d,X-1000,a,b,9.5,4,z\<newline>2,d,X-3050,,,30,\<newline>3,e,Y-1000,a,b,9.5,4,z\<newline>'') =
     [[''2'', ''d'', ''X-3050'', [], [], ''30'', []]] \<and>
   ''Y'' \<in> row_base ` set (clean_csv_rows ''1,d,X-1000,a,b,9.5,4,z\<newline>2,d,X-3050,,,30,\<newline>3,e,Y-1000,a,b,9.5,4,z\<newline>'') \<and>
   count_3050 (surviving_csv ''1,d,X-1000,a,b,9.5,4,z\<newline>2,d,X-3050,,,30,\<newline>3,e,Y-1000,a,b,9.5,4,z\<newline>'') ''Y'' = 0 \<and>
   count_3050 (clean_csv_rows ''1,d,X-1000,a,b,9.5,4,z\<newline>2,d,X-3050,,,30,\<newline>3,e,Y-1000,a,b,9.5,4,z\<newline>'') ''Y'' = 1 \<and>
   List.find (\<lambda>p. row_base p = ''Y'') (surviving_csv ''1,d,X-1000,a,b,9.5,4,z\<newline>2,d,X-3050,,,30,\<newline>3,e,Y-1000,a,b,9.5,4,z\<newline>'') =
     Some [''3'', ''e'', ''Y-1000'', ''a'', ''b'', ''9.5'', ''4'', ''z''] \<and>
   filter (\<lambda>p. row_base p = ''Y'' \<and> row_token p = ''3050'') (clean_csv_rows ''1,d,X-1000,a,b,9.5,4,z\<newline>2,d,X-3050,,,30,\<newline>3,e,Y-1000,a,b,9.5,4,z\<newline>'') =
     [[''3'', ''e'', ''Y-3050'', [], [], [], [], ''z'']]"
    by blast

  have hxt: "''X'' \<in> row_base ` set (clean_txt_rows tab_example_bases)"
    unfolding eval_clean_three_txt by (simp add: eval_rows_three(1))
  have hyt: "''Y'' \<in> row_base ` set (clean_txt_rows tab_example_bases)"
    unfolding eval_clean_three_txt by (simp add: eval_rows_three(2))
  have cxt: "count_3050 (surviving_txt tab_example_bases) ''X'' = 1"
    unfolding eval_surviving_three_txt by (rule eval_rows_three(3))
  have cyt: "count_3050 (surviving_txt tab_example_bases) ''Y'' = 0"
    unfolding eval_surviving_three_txt by (rule eval_rows_three(4))
  have fyt: "List.find (\<lambda>p. row_base p = ''Y'') (surviving_txt tab_example_bases) =
      Some [''3'', ''e'', ''Y-1000'', ''a'', ''b'', ''9.5'', ''4'', ''z'']"
    unfolding eval_surviving_three_txt by (rule eval_rows_three(5))
  note xt = clean_3050_per_base [where tab_text = tab_example_bases, of "''X''", THEN conjunct2, THEN mp, OF hxt]
  note yt = clean_3050_per_base [where tab_text = tab_example_bases, of "''Y''", THEN conjunct2, THEN mp, OF hyt]
  from xt cxt have x1t: "count_3050 (clean_txt_rows tab_example_bases) ''X'' = 1" by simp
  from cxt have "count_3050 (surviving_txt tab_example_bases) ''X'' \<noteq> 0" by simp
  with xt have "filter (\<lambda>p. row_base p = ''X'' \<and> row_token p = ''3050'') (clean_txt_rows tab_example_bases) =
      sort_kept (filter (\<lambda>p. row_base p = ''X'' \<and> row_token p = ''3050'') (surviving_txt tab_example_bases))"
    by blast
  then have x2t: "filter (\<lambda>p. row_base p = ''X'' \<and> row_token p = ''3050'') (clean_txt_rows tab_example_bases) =
      [[''2'', ''d'', ''X-3050'', [], [], ''30'', []]]"
    unfolding eval_surviving_three_txt by (simp only: eval_rows_three(6))
  from yt cyt have y1t: "count_3050 (clean_txt_rows tab_example_bases) ''Y'' = 1" by simp
  from yt cyt obtain fp where f: "List.find (\<lambda>p. row_base p = ''Y'') (surviving_txt tab_example_bases) = Some fp"
    and r: "filter (\<lambda>p. row_base p = ''Y'' \<and> row_token p = ''3050'') (clean_txt_rows tab_example_bases) =
        [map (\<lambda>j. if j = 2 then ''Y'' @ ''-3050'' else if 3 \<le> j \<and> j \<le> 6 then [] else fp ! j)
           [0 ..< max 7 (length fp)]]"
    by blast
  from f fyt have "fp = [''3'', ''e'', ''Y-1000'', ''a'', ''b'', ''9.5'', ''4'', ''z'']" by simp
  with r have y2t: "filter (\<lambda>p. row_base p = ''Y'' \<and> row_token p = ''3050'') (clean_txt_rows tab_example_bases) =
      [[''3'', ''e'', ''Y-3050'', [], [], [], [], ''z'']]"
    by (simp only: eval_rows_three(7))
  from hxt cxt x1t x2t hyt cyt y1t fyt y2t
  have t: "''X'' \<in> row_base ` set (clean_txt_rows tab_example_bases) \<and>
   count_3050 (surviving_txt tab_example_bases) ''X'' = 1 \<and>
   count_3050 (clean_txt_rows tab_example_bases) ''X'' = 1 \<and>
   filter (\<lambda>p. row_base p = ''X'' \<and> row_token p = ''3050'') (clean_txt_rows tab_example_bases) =
     [[''2'', ''d'', ''X-3050'', [], [], ''30'', []]] \<and>
   ''Y'' \<in> row_base ` set (clean_txt_rows tab_example_bases) \<and>
   count_3050 (surviving_txt tab_example_bases) ''Y'' = 0 \<and>
   count_3050 (clean_txt_rows tab_example_bases) ''Y'' = 1 \<and>
   List.find (\<lambda>p. row_base p = ''Y'') (surviving_txt tab_example_bases) =
     Some [''3'', ''e'', ''Y-1000'', ''a'', ''b'', ''9.5'', ''4'', ''z''] \<and>
   filter (\<lambda>p. row_base p = ''Y'' \<and> row_token p = ''3050'') (clean_txt_rows tab_example_bases) =
     [[''3'', ''e'', ''Y-3050'', [], [], [], [], ''z'']]"
    by blast

  from c t show ?thesis by (rule conjI)
qed

lemma eval_lines_two:
  "nonblank_lines ''1,d,X-3050\<newline>2,d,X-3050\<newline>'' =
     [''1,d,X-3050'', ''2,d,X-3050'']"
  by code_simp

lemma eval_surviving_two:
  "surviving_csv ''1,d,X-3050\<newline>2,d,X-3050\<newline>'' =
     [[''1'', ''d'', ''X-3050''], [''2'', ''d'', ''X-3050'']]"
  unfolding surviving_csv_def eval_lines_two by code_simp

lemma eval_synthesized_two:
  "synthesized [[''1'', ''d'', ''X-3050''], [''2'', ''d'', ''X-3050'']] = []"
  by code_simp

lemma eval_clean_two:
  "clean_csv_rows ''1,d,X-3050\<newline>2,d,X-3050\<newline>'' =
     [[''1'', ''d'', ''X-3050''], [''2'', ''d'', ''X-3050'']]"
  unfolding clean_csv_rows_eq eval_surviving_two eval_synthesized_two by code_simp

lemma eval_base_two: "row_base [''1'', ''d'', ''X-3050''] = ''X''"
  by code_simp

lemma eval_count_two:
  "count_3050 [[''1'', ''d'', ''X-3050''], [''2'', ''d'', ''X-3050'']] ''X'' = 2"
  by code_simp

text \<open>
  C3 as stated fails when the input already has two rows with token \<open>3050\<close> for one base:
  both are kept.
\<close>

theorem clean_csv_two_3050_rows_counterexample:
  "''X'' \<in> row_base ` set (clean_csv_rows ''1,d,X-3050\<newline>2,d,X-3050\<newline>'') \<and>
   count_3050 (clean_csv_rows ''1,d,X-3050\<newline>2,d,X-3050\<newline>'') ''X'' = 2"
  unfolding eval_clean_two by (simp add: eval_base_two eval_count_two)

text \<open>
  C9. The rows written by \<open>clean_csv\<close> and by \<open>clean_txt\<close> are in non-decreasing order of
  the pair (description field, SKU field), strings compared character by character.
\<close>

theorem clean_rows_sorted:
  "sorted (map (\<lambda>p. (p ! 1, p ! 2)) (clean_csv_rows text)) \<and>
   sorted (map (\<lambda>p. (p ! 1, p ! 2)) (clean_txt_rows text))"
  by (simp add: clean_csv_rows_def clean_txt_rows_def sort_kept_def)

section \<open>Running the filter pass on its own output\<close>

subsection \<open>A second run on rows that came out of a first run\<close>

lemma survives_clean:
  assumes "\<forall>p \<in> set k. survives p"
  shows "\<forall>p \<in> set (sort_kept (k @ synthesized k)). survives p"
  using assms survives_synthesized [OF assms] by (auto simp: sort_kept_def)

lemma missing_clean:
  assumes "\<forall>p \<in> set k. survives p"
  shows "missing (sort_kept (k @ synthesized k)) = []"
proof -
  let ?out = "sort_kept (k @ synthesized k)"
  have "has_3050 ?out b" if "b \<in> row_base ` set ?out" for b
  proof -
    from that have "b \<in> row_base ` set k" by (simp only: bases_clean [OF assms])
    then have "count_3050 ?out b = max 1 (count_3050 k b)"
      by (simp only: count_clean [OF assms] if_True)
    then have "count_3050 ?out b \<noteq> 0" by simp
    then show ?thesis by (simp add: count_zero_iff)
  qed
  moreover have "b \<in> row_base ` set ?out" if "(b, fp) \<in> set (firsts ?out)" for b fp
    using firsts_mem [OF that] by blast
  ultimately show ?thesis
    unfolding missing_def by (auto simp: filter_empty_conv)
qed

lemma rerun_rows:
  assumes "\<forall>p \<in> set k. survives p"
  shows "sort_kept (filter survives (sort_kept (k @ synthesized k)) @
           synthesized (filter survives (sort_kept (k @ synthesized k))))
         = sort_kept (k @ synthesized k)"
proof -
  let ?out = "sort_kept (k @ synthesized k)"
  have f: "filter survives ?out = ?out"
    using survives_clean [OF assms] by simp
  have s: "synthesized ?out = []"
    using missing_clean [OF assms] by (simp only: synthesized_def [of ?out] list.map)
  have "sorted (map (\<lambda>p. (p ! 1, p ! 2)) ?out)"
    by (simp add: sort_kept_def)
  then have "sort_kept ?out = ?out"
    unfolding sort_kept_def [of ?out] by (rule sort_key_id_if_sorted)
  then show ?thesis by (simp add: f s)
qed

subsection \<open>Reading back what was written\<close>

lemma py_splitlines_line:
  "\<forall>c \<in> set l. \<not> py_linebreak c \<Longrightarrow>
   py_splitlines (l @ CHR 0x0A # rest) = l # py_splitlines rest"
proof (induction l)
  case Nil
  have "py_linebreak CHR 0x0A" by (simp add: py_linebreak_def)
  then show ?case by (cases rest) simp_all
next
  case (Cons x l)
  obtain y ys where r: "l @ CHR 0x0A # rest = y # ys" by (cases l) auto
  from Cons.prems have x: "\<not> py_linebreak x" by simp
  have "py_linebreak CHR 0x0D" by (simp add: py_linebreak_def)
  with x have "x \<noteq> CHR 0x0D" by auto
  with x Cons r show ?case by simp
qed

lemma py_splitlines_join:
  "\<forall>l \<in> set ls. \<forall>c \<in> set l. \<not> py_linebreak c \<Longrightarrow> ls \<noteq> [] \<Longrightarrow>
   py_splitlines (py_join [CHR 0x0A] ls @ [CHR 0x0A]) = ls"
proof (induction ls)
  case Nil
  then show ?case by simp
next
  case (Cons p ps)
  show ?case
  proof (cases ps)
    case Nil
    with Cons.prems show ?thesis using py_splitlines_line [of p "[]"] by simp
  next
    case (Cons q qs)
    with Cons.prems Cons.IH show ?thesis
      using py_splitlines_line [of p "py_join [CHR 0x0A] (q # qs) @ [CHR 0x0A]"] by simp
  qed
qed

lemma py_splitlines_no_break:
  "l \<in> set (py_splitlines s) \<Longrightarrow> c \<in> set l \<Longrightarrow> \<not> py_linebreak c"
proof (induction s arbitrary: l rule: py_splitlines.induct)
  case 1
  then show ?case by simp
next
  case (2 x)
  then show ?case by (auto split: if_splits)
next
  case (3 x y ys)
  show ?case
  proof (cases "x = CHR 0x0D \<and> y = CHR 0x0A")
    case True
    with "3.prems" have "l = [] \<or> l \<in> set (py_splitlines ys)" by auto
    with "3.IH"(1) [OF True] "3.prems"(2) show ?thesis by auto
  next
    case nc: False
    show ?thesis
    proof (cases "py_linebreak x")
      case True
      with nc "3.prems" have "l = [] \<or> l \<in> set (py_splitlines (y # ys))" by auto
      with "3.IH"(2) [OF nc True] "3.prems"(2) show ?thesis by auto
    next
      case False
      note ih = "3.IH"(3) [OF nc False]
      show ?thesis
      proof (cases "py_splitlines (y # ys)")
        case Nil
        with nc False "3.prems" show ?thesis by auto
      next
        case (Cons a as)
        with nc False "3.prems" have "l = x # a \<or> l \<in> set as" by auto
        then show ?thesis
        proof
          assume l: "l = x # a"
          have "a \<in> set (py_splitlines (y # ys))" using Cons by simp
          from ih [OF this] l "3.prems"(2) False show ?thesis by auto
        next
          assume "l \<in> set as"
          then have "l \<in> set (py_splitlines (y # ys))" using Cons by simp
          from ih [OF this "3.prems"(2)] show ?thesis .
        qed
      qed
    qed
  qed
qed

lemma py_split_fields: "f \<in> set (py_split c s) \<Longrightarrow> c \<notin> set f \<and> set f \<subseteq> set s"
proof (induction s arbitrary: f)
  case Nil
  then show ?case by simp
next
  case (Cons x xs)
  obtain a as where sp: "py_split c xs = a # as"
    using py_split_nonempty [of c xs] by (cases "py_split c xs") auto
  show ?case
  proof (cases "x = c")
    case True
    with Cons.prems have "f = [] \<or> f \<in> set (py_split c xs)" by auto
    with Cons.IH show ?thesis by auto
  next
    case False
    with Cons.prems sp have "f = x # a \<or> f \<in> set as" by auto
    then show ?thesis
    proof
      assume f: "f = x # a"
      have "a \<in> set (py_split c xs)" using sp by simp
      from Cons.IH [OF this] f False show ?thesis by auto
    next
      assume "f \<in> set as"
      then have "f \<in> set (py_split c xs)" using sp by simp
      from Cons.IH [OF this] show ?thesis by auto
    qed
  qed
qed

lemma py_split_Cons_field:
  "c \<notin> set p \<Longrightarrow> py_split c (p @ c # t) = p # py_split c t"
  using py_split_nonempty [of c t] by (induction p) (auto split: list.splits)

lemma py_split_join:
  "p \<noteq> [] \<Longrightarrow> \<forall>f \<in> set p. c \<notin> set f \<Longrightarrow> py_split c (py_join [c] p) = p"
proof (induction p)
  case Nil
  then show ?case by simp
next
  case (Cons f fs)
  show ?case
  proof (cases fs)
    case Nil
    with Cons.prems show ?thesis by (simp add: py_split_single)
  next
    case (Cons g gs)
    with Cons.prems Cons.IH show ?thesis
      by (simp add: py_split_Cons_field)
  qed
qed

lemma set_py_strip: "set (py_strip s) \<subseteq> set s"
  by (auto simp: py_strip_def dest!: set_dropWhileD)

subsection \<open>Rows that the comma-delimited pass reads back unchanged\<close>

lemma set_py_join: "set (py_join sep p) \<subseteq> set sep \<union> \<Union> (set ` set p)"
  by (induction sep p rule: py_join.induct) auto

lemma length_two_cases:
  "2 \<le> length p \<Longrightarrow> \<exists>a b r. p = a # b # r"
  by (cases p, simp, rename_tac a q, case_tac q, auto)

lemma py_join_nonempty: "2 \<le> length p \<Longrightarrow> py_join [c] p \<noteq> []"
  using length_two_cases [of p] by auto

lemma hd_py_join:
  "2 \<le> length p \<Longrightarrow> hd (py_join [c] p) = (if p ! 0 = [] then c else hd (p ! 0))"
  using length_two_cases [of p] by auto

lemma last_py_join:
  assumes "2 \<le> length p"
  shows "last (py_join [c] p) = (if last p = [] then c else last (last p))"
proof -
  from assms have "p \<noteq> []" by auto
  from py_join_butlast [OF this, of "[c]"] assms
  have "py_join [c] p = (py_join [c] (butlast p) @ [c]) @ last p" by simp
  then show ?thesis by (simp add: last_append)
qed

lemma csv_ok_parse:
  assumes "l \<in> set (nonblank_lines text)" and "3 \<le> length (parse_line_csv l)"
  shows "csv_ok (parse_line_csv l)"
proof -
  from assms(1) have l: "l \<in> set (py_splitlines text)" by (simp add: nonblank_lines_def)
  have "CHR '','' \<notin> set f \<and> (\<forall>c \<in> set f. \<not> py_linebreak c)"
    if "f \<in> set (parse_line_csv l)" for f
  proof -
    from that have f: "CHR '','' \<notin> set f" "set f \<subseteq> set (py_strip l)"
      using py_split_fields [of f "CHR '',''" "py_strip l"] by (simp_all add: parse_line_csv_def)
    with set_py_strip [of l] have "set f \<subseteq> set l" by blast
    with py_splitlines_no_break [OF l] f(1) show ?thesis by blast
  qed
  moreover have "py_join '','' (parse_line_csv l) = py_strip l"
    by (simp add: parse_line_csv_def py_join_split)
  ultimately show ?thesis
    using assms(2) by (simp add: csv_ok_def py_strip_idem)
qed

lemma set_new_parts:
  "set (new_parts_txt b fp) \<subseteq> insert [] (insert (b @ ''-3050'') (set fp))"
proof -
  have "set (xs[i := x]) \<subseteq> insert x (set xs)" for xs :: "string list" and i x
    by (rule set_update_subset_insert)
  then have "set (xs[i := x]) \<subseteq> insert [] (insert y A)"
    if "set xs \<subseteq> insert [] (insert y A)" "x = [] \<or> x = y" for xs :: "string list" and i x y A
    using that by blast
  moreover have "set (pad7 fp) \<subseteq> insert [] (insert (b @ ''-3050'') (set fp))"
    by (auto simp: pad7_def)
  ultimately show ?thesis
    unfolding new_parts_txt_def by simp
qed

lemma new_parts_first: "3 \<le> length fp \<Longrightarrow> new_parts_txt b fp ! 0 = fp ! 0"
  by (auto simp: new_parts_txt_def pad7_def nth_append)

lemma new_parts_last:
  "last (new_parts_txt b fp) = (if length fp \<le> 7 then [] else last fp)"
proof -
  have n: "new_parts_txt b fp \<noteq> []" using length_new_parts [of b fp] by auto
  show ?thesis
  proof (cases "length fp \<le> 7")
    case True
    then have "length (new_parts_txt b fp) = 7" by (simp add: length_new_parts)
    then have "last (new_parts_txt b fp) = new_parts_txt b fp ! 6"
      using n by (simp add: last_conv_nth)
    also have "\<dots> = []" using True by (simp add: new_parts_txt_def pad7_def)
    finally show ?thesis using True by simp
  next
    case False
    then have "fp \<noteq> []" by auto
    with False show ?thesis
      by (simp add: last_conv_nth n length_new_parts)
         (simp add: new_parts_txt_def pad7_def)
  qed
qed

lemma csv_ok_synth:
  assumes ok: "csv_ok fp" and sv: "survives fp"
  shows "csv_ok (new_parts_txt (row_base fp) fp)"
proof -
  let ?b = "row_base fp" and ?n = "new_parts_txt (row_base fp) fp"
  from ok have len: "3 \<le> length fp" by (simp add: csv_ok_def)
  from ok have fld: "\<And>f c. f \<in> set fp \<Longrightarrow> c \<in> set f \<Longrightarrow> c \<noteq> CHR '','' \<and> \<not> py_linebreak c"
    by (auto simp: csv_ok_def)
  have sku: "fp ! 2 \<in> set fp" using len by simp
  have "set ?b \<subseteq> set (row_sku fp)"
    unfolding row_base_def using make_key_prefix by (rule set_mono_prefix)
  also have "\<dots> \<subseteq> set (fp ! 2)" unfolding row_sku_def by (rule set_py_strip)
  finally have b: "\<And>c. c \<in> set ?b \<Longrightarrow> c \<noteq> CHR '','' \<and> \<not> py_linebreak c"
    using fld [OF sku] by blast
  have tail: "\<And>c. c \<in> set ''-3050'' \<Longrightarrow> c \<noteq> CHR '','' \<and> \<not> py_linebreak c"
    by (auto simp: py_linebreak_def)
  have fields: "CHR '','' \<notin> set f \<and> (\<forall>c \<in> set f. \<not> py_linebreak c)" if "f \<in> set ?n" for f
  proof -
    from that set_new_parts [of ?b fp]
    have "f = [] \<or> f = ?b @ ''-3050'' \<or> f \<in> set fp" by blast
    then show ?thesis using b tail fld by (elim disjE) auto
  qed
  have jfp: "py_join '','' fp \<noteq> []" using len py_join_nonempty [of fp "CHR '',''"] by simp
  from ok have "py_strip (py_join '','' fp) = py_join '','' fp" by (simp add: csv_ok_def)
  with py_strip_edges [of "py_join '','' fp"] jfp
  have e: "\<not> py_isspace (hd (py_join '','' fp))" "\<not> py_isspace (last (py_join '','' fp))"
    by simp_all
  have n2: "2 \<le> length ?n" "2 \<le> length fp" using len by (simp_all add: length_new_parts)
  have comma: "\<not> py_isspace CHR '',''" by (simp add: py_isspace_def)
  have "hd (py_join '','' ?n) = hd (py_join '','' fp)"
    using hd_py_join [OF n2(1), of "CHR '',''"] hd_py_join [OF n2(2), of "CHR '',''"]
    by (simp add: new_parts_first [OF len])
  with e(1) have h: "\<not> py_isspace (hd (py_join '','' ?n))" by simp
  have l: "\<not> py_isspace (last (py_join '','' ?n))"
  proof (cases "length fp \<le> 7")
    case True
    then show ?thesis
      using last_py_join [OF n2(1), of "CHR '',''"] comma by (simp add: new_parts_last)
  next
    case False
    then have "last (py_join '','' ?n) = last (py_join '','' fp)"
      using last_py_join [OF n2(1), of "CHR '',''"] last_py_join [OF n2(2), of "CHR '',''"]
      by (simp add: new_parts_last)
    with e(2) show ?thesis by simp
  qed
  from h l have "py_strip (py_join '','' ?n) = py_join '','' ?n"
    by (intro py_strip_id) simp
  with fields len show ?thesis
    by (simp add: csv_ok_def length_new_parts)
qed

lemma read_back_csv:
  assumes "\<forall>p \<in> set rows. csv_ok p"
  shows "map parse_line_csv (nonblank_lines (write_lines '','' rows)) = rows"
proof (cases "rows = []")
  case True
  have "py_linebreak CHR 0x0A" by (simp add: py_linebreak_def)
  then have "nonblank_lines [CHR 0x0A] = []"
    by (simp add: nonblank_lines_def py_strip_def)
  with True show ?thesis by (simp add: write_lines_def)
next
  case False
  let ?ls = "map (py_join '','') rows"
  have nb: "\<not> py_linebreak c" if "l \<in> set ?ls" "c \<in> set l" for l c
  proof -
    from that obtain p where p: "p \<in> set rows" and l: "l = py_join '','' p" by auto
    from assms p have "\<forall>f \<in> set p. \<forall>c \<in> set f. \<not> py_linebreak c" by (simp add: csv_ok_def)
    moreover have "\<not> py_linebreak CHR '',''" by (simp add: py_linebreak_def)
    ultimately show ?thesis using set_py_join [of "'',''" p] that(2) l by auto
  qed
  have "py_splitlines (write_lines '','' rows) = ?ls"
    unfolding write_lines_def using nb False by (intro py_splitlines_join) auto
  moreover have "py_strip (py_join '','' p) = py_join '','' p \<and> py_join '','' p \<noteq> []
      \<and> py_split CHR '','' (py_join '','' p) = p" if "p \<in> set rows" for p
  proof -
    from assms that have ok: "csv_ok p" by simp
    then have "py_join '','' p \<noteq> []" using py_join_nonempty [of p "CHR '',''"]
      by (simp add: csv_ok_def)
    moreover have "p \<noteq> []" using ok by (auto simp: csv_ok_def)
    then have "py_split CHR '','' (py_join '','' p) = p"
      using ok py_split_join [of p "CHR '',''"] by (auto simp: csv_ok_def)
    ultimately show ?thesis using ok by (simp add: csv_ok_def)
  qed
  ultimately show ?thesis
    by (simp add: nonblank_lines_def filter_map comp_def parse_line_csv_def map_idI)
qed

subsection \<open>Rows that the tab-delimited pass reads back unchanged\<close>

lemma mem_dropWhile: "c \<in> set s \<Longrightarrow> \<not> P c \<Longrightarrow> c \<in> set (dropWhile P s)"
  by (induction s) auto

lemma in_set_nonempty: "c \<in> set xs \<Longrightarrow> xs \<noteq> []"
  by (cases xs) auto

lemma py_strip_nonempty: "c \<in> set s \<Longrightarrow> \<not> py_isspace c \<Longrightarrow> py_strip s \<noteq> []"
proof -
  assume c: "c \<in> set s" "\<not> py_isspace c"
  let ?t = "rev (dropWhile py_isspace s)"
  from c have "c \<in> set ?t" by (simp add: mem_dropWhile)
  then have "c \<in> set (dropWhile py_isspace ?t)"
    using c(2) by (rule mem_dropWhile)
  then have "dropWhile py_isspace ?t \<noteq> []" by (rule in_set_nonempty)
  then show ?thesis unfolding py_strip_def rev_is_Nil_conv .
qed

lemma set_py_join_fields: "f \<in> set p \<Longrightarrow> set f \<subseteq> set (py_join sep p)"
  by (induction sep p rule: py_join.induct) auto

lemma txt_ok_parse:
  assumes "l \<in> set (nonblank_lines text)" and "3 \<le> length (parse_line_txt l)"
  shows "txt_ok (parse_line_txt l)"
proof -
  from assms(1) have l: "l \<in> set (py_splitlines text)" and nb: "py_strip l \<noteq> []"
    by (simp_all add: nonblank_lines_def)
  have "CHR 0x09 \<notin> set f \<and> (\<forall>c \<in> set f. \<not> py_linebreak c)"
    if "f \<in> set (parse_line_txt l)" for f
  proof -
    from that have f: "CHR 0x09 \<notin> set f" "set f \<subseteq> set l"
      using py_split_fields [of f "CHR 0x09" l] by (simp_all add: parse_line_txt_def)
    with py_splitlines_no_break [OF l] show ?thesis by blast
  qed
  moreover have "py_join [CHR 0x09] (parse_line_txt l) = l"
    by (simp add: parse_line_txt_def py_join_split)
  ultimately show ?thesis
    using assms(2) nb by (simp add: txt_ok_def)
qed

lemma txt_ok_synth:
  assumes ok: "txt_ok fp"
  shows "txt_ok (new_parts_txt (row_base fp) fp)"
proof -
  let ?b = "row_base fp" and ?n = "new_parts_txt (row_base fp) fp"
  from ok have len: "3 \<le> length fp" by (simp add: txt_ok_def)
  from ok have fld: "\<And>f c. f \<in> set fp \<Longrightarrow> c \<in> set f \<Longrightarrow> c \<noteq> CHR 0x09 \<and> \<not> py_linebreak c"
    by (auto simp: txt_ok_def)
  have sku: "fp ! 2 \<in> set fp" using len by simp
  have "set ?b \<subseteq> set (row_sku fp)"
    unfolding row_base_def using make_key_prefix by (rule set_mono_prefix)
  also have "\<dots> \<subseteq> set (fp ! 2)" unfolding row_sku_def by (rule set_py_strip)
  finally have b: "\<And>c. c \<in> set ?b \<Longrightarrow> c \<noteq> CHR 0x09 \<and> \<not> py_linebreak c"
    using fld [OF sku] by blast
  have tail: "\<And>c. c \<in> set ''-3050'' \<Longrightarrow> c \<noteq> CHR 0x09 \<and> \<not> py_linebreak c"
    by (auto simp: py_linebreak_def)
  have fields: "CHR 0x09 \<notin> set f \<and> (\<forall>c \<in> set f. \<not> py_linebreak c)" if "f \<in> set ?n" for f
  proof -
    from that set_new_parts [of ?b fp]
    have "f = [] \<or> f = ?b @ ''-3050'' \<or> f \<in> set fp" by blast
    then show ?thesis using b tail fld by (elim disjE) auto
  qed
  have "?n ! 2 \<in> set ?n" using len by (simp add: length_new_parts)
  then have "set (?b @ ''-3050'') \<subseteq> set (py_join [CHR 0x09] ?n)"
    using set_py_join_fields [of "?n ! 2" ?n] by (simp only: new_parts_sku)
  then have "CHR ''0'' \<in> set (py_join [CHR 0x09] ?n)" by auto
  moreover have "\<not> py_isspace CHR ''0''" by (simp add: py_isspace_def)
  ultimately have "py_strip (py_join [CHR 0x09] ?n) \<noteq> []" by (rule py_strip_nonempty)
  with fields len show ?thesis
    by (simp add: txt_ok_def length_new_parts)
qed

lemma read_back_txt:
  assumes "\<forall>p \<in> set rows. txt_ok p"
  shows "map parse_line_txt (nonblank_lines (write_lines [CHR 0x09] rows)) = rows"
proof (cases "rows = []")
  case True
  have "py_linebreak CHR 0x0A" by (simp add: py_linebreak_def)
  then have "nonblank_lines [CHR 0x0A] = []"
    by (simp add: nonblank_lines_def py_strip_def)
  with True show ?thesis by (simp add: write_lines_def)
next
  case False
  let ?ls = "map (py_join [CHR 0x09]) rows"
  have nb: "\<not> py_linebreak c" if "l \<in> set ?ls" "c \<in> set l" for l c
  proof -
    from that obtain p where p: "p \<in> set rows" and l: "l = py_join [CHR 0x09] p" by auto
    from assms p have "\<forall>f \<in> set p. \<forall>c \<in> set f. \<not> py_linebreak c" by (simp add: txt_ok_def)
    moreover have "\<not> py_linebreak CHR 0x09" by (simp add: py_linebreak_def)
    ultimately show ?thesis using set_py_join [of "[CHR 0x09]" p] that(2) l by auto
  qed
  have "py_splitlines (write_lines [CHR 0x09] rows) = ?ls"
    unfolding write_lines_def using nb False by (intro py_splitlines_join) auto
  moreover have "py_strip (py_join [CHR 0x09] p) \<noteq> []
      \<and> py_split CHR 0x09 (py_join [CHR 0x09] p) = p" if "p \<in> set rows" for p
  proof -
    from assms that have ok: "txt_ok p" by simp
    then have "p \<noteq> []" by (auto simp: txt_ok_def)
    then have "py_split CHR 0x09 (py_join [CHR 0x09] p) = p"
      using ok py_split_join [of p "CHR 0x09"] by (auto simp: txt_ok_def)
    then show ?thesis using ok by (simp add: txt_ok_def)
  qed
  ultimately show ?thesis
    by (simp add: nonblank_lines_def filter_map comp_def parse_line_txt_def map_idI)
qed

lemma txt_ok_clean_rows: "p \<in> set (clean_txt_rows text) \<Longrightarrow> txt_ok p"
proof -
  let ?k = "surviving_txt text"
  have k: "txt_ok q" if "q \<in> set ?k" for q
  proof -
    from that obtain l where "l \<in> set (nonblank_lines text)" "q = parse_line_txt l" "survives q"
      by (auto simp: surviving_txt_def)
    then show ?thesis using txt_ok_parse [of l "text"] by (auto simp: survives_def)
  qed
  assume "p \<in> set (clean_txt_rows text)"
  then have "p \<in> set ?k \<or> p \<in> set (synthesized ?k)"
    by (simp add: clean_txt_rows_eq sort_kept_def)
  then show ?thesis
  proof
    assume "p \<in> set ?k"
    with k show ?thesis by simp
  next
    assume "p \<in> set (synthesized ?k)"
    then obtain b fp where m: "(b, fp) \<in> set (missing ?k)" and p: "p = new_parts_txt b fp"
      by (auto simp: synthesized_def)
    from missing_mem [OF m] have "fp \<in> set ?k" "row_base fp = b" by simp_all
    with k [of fp] p show ?thesis using txt_ok_synth [of fp] by auto
  qed
qed

lemma clean_txt_rows_rerun: "clean_txt_rows (clean_txt text) = clean_txt_rows text"
proof -
  let ?k = "surviving_txt text"
  let ?out = "sort_kept (?k @ synthesized ?k)"
  have out: "clean_txt_rows text = ?out" by (rule clean_txt_rows_eq)
  have "map parse_line_txt (nonblank_lines (write_lines [CHR 0x09] (clean_txt_rows text)))
      = clean_txt_rows text"
    by (rule read_back_txt) (simp add: txt_ok_clean_rows)
  then have "surviving_txt (clean_txt text) = filter survives ?out"
    by (simp add: surviving_txt_def clean_txt_def out)
  then have "clean_txt_rows (clean_txt text)
      = sort_kept (filter survives ?out @ synthesized (filter survives ?out))"
    by (simp only: clean_txt_rows_eq)
  also have "\<dots> = ?out"
    by (rule rerun_rows) (rule survives_surviving_txt)
  finally show ?thesis by (simp only: out)
qed

lemma csv_ok_clean_rows: "p \<in> set (clean_csv_rows text) \<Longrightarrow> csv_ok p"
proof -
  let ?k = "surviving_csv text"
  have k: "csv_ok q \<and> survives q" if "q \<in> set ?k" for q
  proof -
    from that obtain l where "l \<in> set (nonblank_lines text)" "q = parse_line_csv l" "survives q"
      by (auto simp: surviving_csv_def)
    then show ?thesis using csv_ok_parse [of l "text"] by (auto simp: survives_def)
  qed
  assume "p \<in> set (clean_csv_rows text)"
  then have "p \<in> set ?k \<or> p \<in> set (synthesized ?k)"
    by (simp add: clean_csv_rows_eq sort_kept_def)
  then show ?thesis
  proof
    assume "p \<in> set ?k"
    with k show ?thesis by simp
  next
    assume "p \<in> set (synthesized ?k)"
    then obtain b fp where m: "(b, fp) \<in> set (missing ?k)" and p: "p = new_parts_txt b fp"
      by (auto simp: synthesized_def)
    from missing_mem [OF m] have "fp \<in> set ?k" "row_base fp = b" by simp_all
    with k [of fp] p show ?thesis using csv_ok_synth [of fp] by auto
  qed
qed

lemma clean_csv_rows_rerun: "clean_csv_rows (clean_csv text) = clean_csv_rows text"
proof -
  let ?k = "surviving_csv text"
  let ?out = "sort_kept (?k @ synthesized ?k)"
  have out: "clean_csv_rows text = ?out" by (rule clean_csv_rows_eq)
  have "map parse_line_csv (nonblank_lines (write_lines '','' (clean_csv_rows text)))
      = clean_csv_rows text"
    by (rule read_back_csv) (simp add: csv_ok_clean_rows)
  then have "surviving_csv (clean_csv text) = filter survives ?out"
    by (simp add: surviving_csv_def clean_csv_def out)
  then have "clean_csv_rows (clean_csv text)
      = sort_kept (filter survives ?out @ synthesized (filter survives ?out))"
    by (simp only: clean_csv_rows_eq)
  also have "\<dots> = ?out"
    by (rule rerun_rows) (rule survives_surviving_csv)
  finally show ?thesis by (simp only: out)
qed

text \<open>
  C5. Running the filter pass on the file it has written leaves the same file, for the
  comma-delimited pass and for the tab-delimited one: every row is read back as it was
  written, none is dropped, none is synthesized, and the order stays.
\<close>

theorem clean_idempotent:
  "clean_csv (clean_csv text) = clean_csv text \<and> clean_txt (clean_txt text) = clean_txt text"
proof
  show "clean_csv (clean_csv text) = clean_csv text"
    by (simp add: clean_csv_def [of "clean_csv text"] clean_csv_rows_rerun)
      (simp add: clean_csv_def)
  show "clean_txt (clean_txt text) = clean_txt text"
    by (simp add: clean_txt_def [of "clean_txt text"] clean_txt_rows_rerun)
      (simp add: clean_txt_def)
qed

section \<open>The frame of the backfill\<close>





section \<open>Short rows\<close>

lemma length_fill_3050_row: "7 \<le> length (fill_3050_row ops st r)"
  using length_pad7 [of r]
  by (auto simp: fill_3050_row_def Let_def split: option.splits)

lemma main_nth:
  "i < length (read_csv_rows csv_rows) \<Longrightarrow>
   main ops csv_rows ! i =
     fill_3050_row ops (build_rates ops (read_csv_rows csv_rows)) (read_csv_rows csv_rows ! i)"
  by (simp add: main_def Let_def)

lemma row_sku_nonempty: "survives p \<Longrightarrow> row_sku p \<noteq> []"
  by (auto simp: survives_def row_token_def ALLOWED_def)

lemma clean_rows_fields:
  assumes "\<forall>p \<in> set k. survives p" and "p \<in> set (sort_kept (k @ synthesized k))"
  shows "3 \<le> length p \<and> row_sku p \<noteq> []"
proof -
  from survives_clean [OF assms(1)] assms(2) have "survives p" by blast
  then show ?thesis using row_sku_nonempty [of p] by (simp add: survives_def)
qed

lemma pad7_short: "length r < 3 \<Longrightarrow> pad7 r ! 2 = []"
  by (simp add: pad7_def nth_append)

lemma fill_3050_row_short: "length r < 3 \<Longrightarrow> fill_3050_row ops st r = pad7 r"
  by (simp add: fill_3050_row_def Let_def pad7_short py_strip_def)

text \<open>
  C2 as stated fails for the sync pass. \<open>read_csv_rows\<close> leaves out only the rows without any
  field, and the third loop of \<open>main\<close> pads every row it is given: the input row \<open>9\<close>, \<open>x\<close>
  of two fields is handed to the worksheet, followed by five empty fields.
\<close>

theorem sync_writes_short_row_counterexample:
  "length [''9'', ''x''] < 3 \<and>
   read_csv_rows [[''9'', ''x''], [''1'', ''d'', ''X-1000'']] =
     [[''9'', ''x''], [''1'', ''d'', ''X-1000'']] \<and>
   main double_ops [[''9'', ''x''], [''1'', ''d'', ''X-1000'']] =
     [[''9'', ''x'', [], [], [], [], []], [''1'', ''d'', ''X-1000'', [], [], [], []]]"
  by code_simp

text \<open>
  C2 (as amended). Every row written by the filter pass, comma-delimited or tab-delimited,
  has at least three fields and a SKU field that is not blank: rows with fewer than three
  fields are dropped. The sync pass drops no row but the empty ones: it hands to the
  worksheet as many rows as \<open>read_csv_rows\<close> returns, each with at least seven fields, and a
  row of fewer than three fields is handed over at its own position as it is, padded with
  empty fields to seven.
\<close>

theorem short_rows_dropped_or_padded:
  "(\<forall>p \<in> set (clean_csv_rows csv_text). 3 \<le> length p \<and> row_sku p \<noteq> []) \<and>
   (\<forall>p \<in> set (clean_txt_rows tab_text). 3 \<le> length p \<and> row_sku p \<noteq> []) \<and>
   length (main ops csv_rows) = length (read_csv_rows csv_rows) \<and>
   (\<forall>i < length (read_csv_rows csv_rows).
      7 \<le> length (main ops csv_rows ! i) \<and>
      (length (read_csv_rows csv_rows ! i) < 3 \<longrightarrow>
         main ops csv_rows ! i = pad7 (read_csv_rows csv_rows ! i))) \<and>
   (\<forall>r \<in> set csv_rows. r \<noteq> [] \<and> length r < 3 \<longrightarrow> pad7 r \<in> set (main ops csv_rows))"
proof (intro conjI ballI allI impI)
  fix p assume "p \<in> set (clean_csv_rows csv_text)"
  then have "3 \<le> length p \<and> row_sku p \<noteq> []"
    unfolding clean_csv_rows_eq by (rule clean_rows_fields [OF survives_surviving_csv])
  then show "3 \<le> length p" and "row_sku p \<noteq> []" by simp_all
next
  fix p assume "p \<in> set (clean_txt_rows tab_text)"
  then have "3 \<le> length p \<and> row_sku p \<noteq> []"
    unfolding clean_txt_rows_eq by (rule clean_rows_fields [OF survives_surviving_txt])
  then show "3 \<le> length p" and "row_sku p \<noteq> []" by simp_all
next
  show "length (main ops csv_rows) = length (read_csv_rows csv_rows)"
    by (simp add: main_def Let_def)
next
  fix i assume "i < length (read_csv_rows csv_rows)"
  then show "7 \<le> length (main ops csv_rows ! i)"
    by (simp add: main_nth length_fill_3050_row)
next
  fix i assume "i < length (read_csv_rows csv_rows)"
    and "length (read_csv_rows csv_rows ! i) < 3"
  then show "main ops csv_rows ! i = pad7 (read_csv_rows csv_rows ! i)"
    by (simp add: main_nth fill_3050_row_short)
next
  fix r assume "r \<in> set csv_rows" and "r \<noteq> [] \<and> length r < 3"
  then have "r \<in> set (read_csv_rows csv_rows)" and s: "length r < 3"
    by (simp_all add: read_csv_rows_def)
  then have "fill_3050_row ops (build_rates ops (read_csv_rows csv_rows)) r
      \<in> set (main ops csv_rows)"
    by (simp add: main_def Let_def)
  with s show "pad7 r \<in> set (main ops csv_rows)"
    by (simp only: fill_3050_row_short)
qed

lemma eval_lines_short:
  "nonblank_lines ''9,x\<newline>1,d,X-1000\<newline>'' = [''9,x'', ''1,d,X-1000'']"
  by code_simp

lemma eval_surviving_short:
  "surviving_csv ''9,x\<newline>1,d,X-1000\<newline>'' = [[''1'', ''d'', ''X-1000'']]"
  unfolding surviving_csv_def eval_lines_short by code_simp

lemma eval_synthesized_short:
  "synthesized [[''1'', ''d'', ''X-1000'']] = [[''1'', ''d'', ''X-3050'', [], [], [], []]]"
  by code_simp

lemma eval_clean_short:
  "clean_csv_rows ''9,x\<newline>1,d,X-1000\<newline>'' =
     [[''1'', ''d'', ''X-1000''], [''1'', ''d'', ''X-3050'', [], [], [], []]]"
  unfolding clean_csv_rows_eq eval_surviving_short eval_synthesized_short by code_simp

lemma eval_surviving_short_txt:
  "surviving_txt tab_example = [[''1'', ''d'', ''X-3050'']]"
  by code_simp

lemma eval_synthesized_short_txt: "synthesized [[''1'', ''d'', ''X-3050'']] = []"
  by code_simp

lemma eval_clean_short_txt:
  "clean_txt_rows tab_example = [[''1'', ''d'', ''X-3050'']]"
  unfolding clean_txt_rows_eq eval_surviving_short_txt eval_synthesized_short_txt by code_simp

lemma eval_main_short:
  "read_csv_rows [[''9'', ''x''], [], [''1'', ''d'', ''X-1000'']] =
     [[''9'', ''x''], [''1'', ''d'', ''X-1000'']]"
  "main double_ops [[''9'', ''x''], [], [''1'', ''d'', ''X-1000'']] =
     [[''9'', ''x'', [], [], [], [], []], [''1'', ''d'', ''X-1000'', [], [], [], []]]"
  "pad7 [''9'', ''x''] = [''9'', ''x'', [], [], [], [], []]"
  "row_sku [''1'', ''d'', ''X-1000''] = ''X-1000''"
  "row_sku [''1'', ''d'', ''X-3050'', [], [], [], []] = ''X-3050''"
  "row_sku [''1'', ''d'', ''X-3050''] = ''X-3050''"
  by code_simp+

theorem short_rows_dropped_or_padded_witness:
  "clean_csv_rows ''9,x\<newline>1,d,X-1000\<newline>'' =
     [[''1'', ''d'', ''X-1000''], [''1'', ''d'', ''X-3050'', [], [], [], []]] \<and>
   clean_txt_rows tab_example = [[''1'', ''d'', ''X-3050'']] \<and>
   (3::nat) \<le> length [''1'', ''d'', ''X-1000''] \<and> row_sku [''1'', ''d'', ''X-1000''] \<noteq> [] \<and>
   (3::nat) \<le> length [''1'', ''d'', ''X-3050''] \<and> row_sku [''1'', ''d'', ''X-3050''] \<noteq> [] \<and>
   read_csv_rows [[''9'', ''x''], [], [''1'', ''d'', ''X-1000'']] =
     [[''9'', ''x''], [''1'', ''d'', ''X-1000'']] \<and>
   length [''9'', ''x''] < 3 \<and>
   main double_ops [[''9'', ''x''], [], [''1'', ''d'', ''X-1000'']] ! 0 =
     [''9'', ''x'', [], [], [], [], []] \<and>
   [''9'', ''x'', [], [], [], [], []]
     \<in> set (main double_ops [[''9'', ''x''], [], [''1'', ''d'', ''X-1000'']])"
proof -
  let ?rows = "[[''9'', ''x''], [], [''1'', ''d'', ''X-1000'']]"
  note t = short_rows_dropped_or_padded [of "''9,x\<newline>1,d,X-1000\<newline>''" tab_example
      double_ops ?rows]
  from t have a: "3 \<le> length [''1'', ''d'', ''X-1000''] \<and> row_sku [''1'', ''d'', ''X-1000''] \<noteq> []"
    unfolding eval_clean_short by simp
  from t have b: "3 \<le> length [''1'', ''d'', ''X-3050''] \<and> row_sku [''1'', ''d'', ''X-3050''] \<noteq> []"
    unfolding eval_clean_short_txt by simp
  have i: "0 < length (read_csv_rows ?rows)" and s: "length (read_csv_rows ?rows ! 0) < 3"
    by (simp_all add: eval_main_short(1))
  from t i s have "main double_ops ?rows ! 0 = pad7 (read_csv_rows ?rows ! 0)"
    by blast
  then have c: "main double_ops ?rows ! 0 = [''9'', ''x'', [], [], [], [], []]"
    by (simp add: eval_main_short(1,3))
  have m: "[''9'', ''x''] \<in> set ?rows" and n: "[''9'', ''x''] \<noteq> [] \<and> length [''9'', ''x''] < 3"
    by simp_all
  from t m n have "pad7 [''9'', ''x''] \<in> set (main double_ops ?rows)"
    by blast
  then have d: "[''9'', ''x'', [], [], [], [], []] \<in> set (main double_ops ?rows)"
    by (simp only: eval_main_short(3))
  from a b c d n show ?thesis
    by (simp only: eval_clean_short eval_clean_short_txt eval_main_short(1) simp_thms)
qed

section \<open>Concrete runs of the backfill and of the sync\<close>



text \<open>
  C4. The SKU that the backfill looks up is \<open>sku.replace("-3050", "-1000")\<close>, which replaces
  every occurrence of \<open>-3050\<close>, not only the trailing token. For the table below, whose base
  \<open>A-3050-B\<close> itself contains \<open>-3050\<close>, the key looked up is \<open>A-1000-B-1000\<close>: the row
  \<open>A-3050-B-1000\<close> with price \<open>100.00\<close> is not found, nothing is written and the SKU is
  reported as unresolved.
\<close>

theorem backfill_replaces_every_3050:
  "py_replace ''-3050'' ''-1000'' ''A-3050-B-3050'' = ''A-1000-B-1000'' \<and>
   fill_3050_prices double_ops
     [[''1'', ''d'', ''A-3050-B-1000'', [], [], ''100.00''],
      [''2'', ''d'', ''A-3050-B-3050'', [], [], []]]
   = Inr \<lparr>written = None, count_updated = 0, unresolved = [''A-3050-B-3050'']\<rparr>"
  by code_simp

text \<open>
  C1 as stated fails. Base \<open>X\<close> has a \<open>-1000\<close> row with the numeric price \<open>120\<close> and no numeric
  cost, and a \<open>-1500\<close> row with the numeric cost \<open>90\<close>. Its price rate comes from the
  \<open>-1000\<close> row, the \<open>-1500\<close> row is then skipped, and the base gets no cost rate: the blank
  cost of the \<open>-3050\<close> row stays blank while its price is filled.
\<close>

theorem sync_cost_fallback_counterexample:
  "to_float double_ops [] = None \<and>
   to_float double_ops ''90'' = Some (double_lit 90 0) \<and>
   cost_per_mm (build_rates double_ops
     [[''1'', ''d'', ''X-1000'', [], [], ''120'', []],
      [''2'', ''d'', ''X-1500'', [], [], ''150'', ''90''],
      [''3'', ''d'', ''X-3050'', [], [], [], []]]) ''X'' = None \<and>
   main double_ops
     [[''1'', ''d'', ''X-1000'', [], [], ''120'', []],
      [''2'', ''d'', ''X-1500'', [], [], ''150'', ''90''],
      [''3'', ''d'', ''X-3050'', [], [], [], []]]
   = [[''1'', ''d'', ''X-1000'', [], [], ''120'', []],
      [''2'', ''d'', ''X-1500'', [], [], ''150'', ''90''],
      [''3'', ''d'', ''X-3050'', [], [], ''366.00'', []]]"
  by code_simp

section \<open>The rates of the sync pass\<close>

lemma build_rates_eq: "build_rates ops rows = foldl (rate_step_1500 ops) (rates_1000 ops rows) rows"
  by (simp add: build_rates_def rates_1000_def)

lemma set_rates_price:
  "price_per_mm (set_rates ops len base r st) B =
     (if B = base then (case price_of ops r of
                          None \<Rightarrow> price_per_mm st B
                        | Some p \<Rightarrow> Some (per_mm ops len p))
      else price_per_mm st B)"
  by (simp add: set_rates_def price_of_def per_mm_def Let_def split: option.splits)

lemma set_rates_cost:
  "cost_per_mm (set_rates ops len base r st) B =
     (if B = base then (case cost_of ops r of
                          None \<Rightarrow> cost_per_mm st B
                        | Some c \<Rightarrow> Some (per_mm ops len c))
      else cost_per_mm st B)"
  by (simp add: set_rates_def cost_of_def per_mm_def Let_def split: option.splits)

lemma step_1000_price:
  "price_per_mm (rate_step_1000 ops st r) B =
     (if row_of ''1000'' B r then (case price_of ops r of
                                    None \<Rightarrow> price_per_mm st B
                                  | Some p \<Rightarrow> Some (per_mm ops 1000 p))
      else price_per_mm st B)"
  by (auto simp: rate_step_1000_def row_of_def set_rates_price Let_def split: option.splits)

lemma step_1000_cost:
  "cost_per_mm (rate_step_1000 ops st r) B =
     (if row_of ''1000'' B r then (case cost_of ops r of
                                    None \<Rightarrow> cost_per_mm st B
                                  | Some c \<Rightarrow> Some (per_mm ops 1000 c))
      else cost_per_mm st B)"
  by (auto simp: rate_step_1000_def row_of_def set_rates_cost Let_def split: option.splits)

lemma step_1500_price:
  "price_per_mm (rate_step_1500 ops st r) B =
     (if row_of ''1500'' B r \<and> price_per_mm st B = None
      then (case price_of ops r of None \<Rightarrow> None | Some p \<Rightarrow> Some (per_mm ops 1500 p))
      else price_per_mm st B)"
  by (auto simp: rate_step_1500_def row_of_def set_rates_price Let_def split: option.splits)

lemma step_1500_cost:
  "cost_per_mm (rate_step_1500 ops st r) B =
     (if row_of ''1500'' B r \<and> price_per_mm st B = None
      then (case cost_of ops r of None \<Rightarrow> cost_per_mm st B | Some c \<Rightarrow> Some (per_mm ops 1500 c))
      else cost_per_mm st B)"
  by (auto simp: rate_step_1500_def row_of_def set_rates_cost Let_def split: option.splits)

lemma loop_1000_price_dom:
  "price_per_mm (foldl (rate_step_1000 ops) st rows) B \<noteq> None \<longleftrightarrow>
     price_per_mm st B \<noteq> None \<or> (\<exists>r \<in> set rows. row_of ''1000'' B r \<and> price_of ops r \<noteq> None)"
  by (induction rows arbitrary: st) (auto simp: step_1000_price split: option.splits)

lemma loop_1000_cost_dom:
  "cost_per_mm (foldl (rate_step_1000 ops) st rows) B \<noteq> None \<longleftrightarrow>
     cost_per_mm st B \<noteq> None \<or> (\<exists>r \<in> set rows. row_of ''1000'' B r \<and> cost_of ops r \<noteq> None)"
  by (induction rows arbitrary: st) (auto simp: step_1000_cost split: option.splits)

lemma loop_1000_price_value:
  assumes "\<forall>r \<in> set rows. row_of ''1000'' B r \<longrightarrow> price_of ops r = None \<or> price_of ops r = Some p"
  shows "price_per_mm (foldl (rate_step_1000 ops) st rows) B =
     (if \<exists>r \<in> set rows. row_of ''1000'' B r \<and> price_of ops r \<noteq> None
      then Some (per_mm ops 1000 p) else price_per_mm st B)"
  using assms
proof (induction rows arbitrary: st)
  case Nil
  then show ?case by simp
next
  case (Cons r rows)
  from Cons.prems have rest:
    "\<forall>r \<in> set rows. row_of ''1000'' B r \<longrightarrow> price_of ops r = None \<or> price_of ops r = Some p"
    and hd: "row_of ''1000'' B r \<longrightarrow> price_of ops r = None \<or> price_of ops r = Some p"
    by simp_all
  show ?case
    unfolding foldl_Cons Cons.IH [OF rest]
    using hd by (auto simp: step_1000_price split: option.splits)
qed

lemma loop_1500_kept:
  assumes "price_per_mm st B \<noteq> None \<or> (\<forall>r \<in> set rows. \<not> row_of ''1500'' B r)"
  shows "price_per_mm (foldl (rate_step_1500 ops) st rows) B = price_per_mm st B \<and>
         cost_per_mm (foldl (rate_step_1500 ops) st rows) B = cost_per_mm st B"
  using assms
proof (induction rows arbitrary: st)
  case Nil
  then show ?case by simp
next
  case (Cons r rows)
  have p: "price_per_mm (rate_step_1500 ops st r) B = price_per_mm st B"
    and c: "cost_per_mm (rate_step_1500 ops st r) B = cost_per_mm st B"
    using Cons.prems by (auto simp: step_1500_price step_1500_cost)
  have "price_per_mm (rate_step_1500 ops st r) B \<noteq> None \<or> (\<forall>r \<in> set rows. \<not> row_of ''1500'' B r)"
    using Cons.prems p by auto
  from Cons.IH [OF this] p c show ?case by simp
qed

lemma loop_1500_price_value:
  assumes "price_per_mm st B = None"
    and "\<forall>r \<in> set rows. row_of ''1500'' B r \<longrightarrow> price_of ops r = None \<or> price_of ops r = Some p"
  shows "price_per_mm (foldl (rate_step_1500 ops) st rows) B =
     (if \<exists>r \<in> set rows. row_of ''1500'' B r \<and> price_of ops r \<noteq> None
      then Some (per_mm ops 1500 p) else None)"
  using assms
proof (induction rows arbitrary: st)
  case Nil
  then show ?case by simp
next
  case (Cons r rows)
  from Cons.prems have rest:
    "\<forall>r \<in> set rows. row_of ''1500'' B r \<longrightarrow> price_of ops r = None \<or> price_of ops r = Some p"
    and hd: "row_of ''1500'' B r \<longrightarrow> price_of ops r = None \<or> price_of ops r = Some p"
    by simp_all
  show ?case
  proof (cases "row_of ''1500'' B r \<and> price_of ops r \<noteq> None")
    case True
    with hd Cons.prems(1) have "price_per_mm (rate_step_1500 ops st r) B = Some (per_mm ops 1500 p)"
      by (auto simp: step_1500_price)
    moreover from this
    have "price_per_mm (foldl (rate_step_1500 ops) (rate_step_1500 ops st r) rows) B
        = price_per_mm (rate_step_1500 ops st r) B"
      using loop_1500_kept [of "rate_step_1500 ops st r" B rows ops] by simp
    ultimately show ?thesis using True by simp
  next
    case False
    with Cons.prems(1) have "price_per_mm (rate_step_1500 ops st r) B = None"
      by (auto simp: step_1500_price split: option.splits)
    from Cons.IH [OF this rest] False show ?thesis by auto
  qed
qed

lemma loop_1500_single:
  assumes "price_per_mm st B = None" and "filter (row_of ''1500'' B) rows = [r]"
  shows "price_per_mm (foldl (rate_step_1500 ops) st rows) B
           = map_option (per_mm ops 1500) (price_of ops r) \<and>
         cost_per_mm (foldl (rate_step_1500 ops) st rows) B
           = (case cost_of ops r of None \<Rightarrow> cost_per_mm st B | Some c \<Rightarrow> Some (per_mm ops 1500 c))"
  using assms
proof (induction rows arbitrary: st)
  case Nil
  then show ?case by simp
next
  case (Cons x rows)
  show ?case
  proof (cases "row_of ''1500'' B x")
    case True
    with Cons.prems(2) have x: "x = r" and none: "\<forall>r \<in> set rows. \<not> row_of ''1500'' B r"
      by (auto simp: filter_empty_conv)
    from loop_1500_kept [of "rate_step_1500 ops st x" B rows ops] none
    have "price_per_mm (foldl (rate_step_1500 ops) st (x # rows)) B
            = price_per_mm (rate_step_1500 ops st x) B"
      and "cost_per_mm (foldl (rate_step_1500 ops) st (x # rows)) B
            = cost_per_mm (rate_step_1500 ops st x) B"
      by simp_all
    with True Cons.prems(1) x show ?thesis
      by (auto simp: step_1500_price step_1500_cost split: option.splits)
  next
    case False
    with Cons.prems have 1: "price_per_mm (rate_step_1500 ops st x) B = None"
      and 2: "filter (row_of ''1500'' B) rows = [r]"
      and 3: "cost_per_mm (rate_step_1500 ops st x) B = cost_per_mm st B"
      by (auto simp: step_1500_price step_1500_cost)
    from Cons.IH [OF 1 2] 3 show ?thesis by (cases "cost_of ops r") simp_all
  qed
qed

text \<open>
  C1 (as amended). The fallback is decided for price and cost together, on the price rate.
  After the first loop a base has a price rate exactly when one of its \<open>-1000\<close> rows has a
  numeric price, and a cost rate exactly when one has a numeric cost. If the base has a
  price rate then, the second loop skips all its rows: both rates stay as the \<open>-1000\<close> rows
  left them, so the cost rate is not taken from a \<open>-1500\<close> row even when there is none. If
  the base has no price rate then and \<open>r\<close> is its only \<open>-1500\<close> row, the price rate is the
  numeric price of \<open>r\<close> divided by 1500 and the cost rate is the numeric cost of \<open>r\<close> divided
  by 1500 (a cost that does not parse leaves the cost rate of the first loop).
\<close>

theorem sync_fallback_gated_on_price:
  "(price_per_mm (rates_1000 ops rows) B \<noteq> None \<longleftrightarrow>
      (\<exists>x \<in> set rows. row_of ''1000'' B x \<and> price_of ops x \<noteq> None)) \<and>
   (cost_per_mm (rates_1000 ops rows) B \<noteq> None \<longleftrightarrow>
      (\<exists>x \<in> set rows. row_of ''1000'' B x \<and> cost_of ops x \<noteq> None)) \<and>
   (price_per_mm (rates_1000 ops rows) B \<noteq> None \<longrightarrow>
      price_per_mm (build_rates ops rows) B = price_per_mm (rates_1000 ops rows) B \<and>
      cost_per_mm (build_rates ops rows) B = cost_per_mm (rates_1000 ops rows) B) \<and>
   (price_per_mm (rates_1000 ops rows) B = None \<and> filter (row_of ''1500'' B) rows = [r] \<longrightarrow>
      price_per_mm (build_rates ops rows) B = map_option (per_mm ops 1500) (price_of ops r) \<and>
      cost_per_mm (build_rates ops rows) B =
        (case cost_of ops r of
           None \<Rightarrow> cost_per_mm (rates_1000 ops rows) B
         | Some c \<Rightarrow> Some (per_mm ops 1500 c)))"
proof (intro conjI impI)
  show "price_per_mm (rates_1000 ops rows) B \<noteq> None \<longleftrightarrow>
      (\<exists>x \<in> set rows. row_of ''1000'' B x \<and> price_of ops x \<noteq> None)"
    unfolding rates_1000_def loop_1000_price_dom by (simp add: rates_init_def)
  show "cost_per_mm (rates_1000 ops rows) B \<noteq> None \<longleftrightarrow>
      (\<exists>x \<in> set rows. row_of ''1000'' B x \<and> cost_of ops x \<noteq> None)"
    unfolding rates_1000_def loop_1000_cost_dom by (simp add: rates_init_def)
next
  assume a: "price_per_mm (rates_1000 ops rows) B \<noteq> None"
  then have k: "price_per_mm (rates_1000 ops rows) B \<noteq> None \<or>
      (\<forall>r \<in> set rows. \<not> row_of ''1500'' B r)" by simp
  from loop_1500_kept [OF k]
  show "price_per_mm (build_rates ops rows) B = price_per_mm (rates_1000 ops rows) B"
    and "cost_per_mm (build_rates ops rows) B = cost_per_mm (rates_1000 ops rows) B"
    by (simp_all add: build_rates_eq)
next
  assume a: "price_per_mm (rates_1000 ops rows) B = None \<and> filter (row_of ''1500'' B) rows = [r]"
  then have 1: "price_per_mm (rates_1000 ops rows) B = None"
    and 2: "filter (row_of ''1500'' B) rows = [r]" by simp_all
  from loop_1500_single [OF 1 2]
  show "price_per_mm (build_rates ops rows) B = map_option (per_mm ops 1500) (price_of ops r)"
    and "cost_per_mm (build_rates ops rows) B =
        (case cost_of ops r of
           None \<Rightarrow> cost_per_mm (rates_1000 ops rows) B
         | Some c \<Rightarrow> Some (per_mm ops 1500 c))"
    by (simp_all add: build_rates_eq)
qed

lemma eval_rates_a:
  "price_per_mm (rates_1000 double_ops
     [[''1'', ''d'', ''X-1000'', [], [], ''120'', []],
      [''2'', ''d'', ''X-1500'', [], [], ''150'', ''90'']]) ''X''
   = Some (per_mm double_ops 1000 (double_lit 120 0))"
  "cost_per_mm (rates_1000 double_ops
     [[''1'', ''d'', ''X-1000'', [], [], ''120'', []],
      [''2'', ''d'', ''X-1500'', [], [], ''150'', ''90'']]) ''X'' = None"
  by code_simp+

lemma eval_rates_b:
  "price_per_mm (rates_1000 double_ops [[''2'', ''d'', ''X-1500'', [], [], ''150'', ''90'']]) ''X''
     = None"
  "filter (row_of ''1500'' ''X'') [[''2'', ''d'', ''X-1500'', [], [], ''150'', ''90'']]
     = [[''2'', ''d'', ''X-1500'', [], [], ''150'', ''90'']]"
  "price_of double_ops [''2'', ''d'', ''X-1500'', [], [], ''150'', ''90''] = Some (double_lit 150 0)"
  "cost_of double_ops [''2'', ''d'', ''X-1500'', [], [], ''150'', ''90''] = Some (double_lit 90 0)"
  by code_simp+

theorem sync_fallback_gated_on_price_witness:
  "price_per_mm (rates_1000 double_ops
     [[''1'', ''d'', ''X-1000'', [], [], ''120'', []],
      [''2'', ''d'', ''X-1500'', [], [], ''150'', ''90'']]) ''X'' \<noteq> None \<and>
   cost_per_mm (build_rates double_ops
     [[''1'', ''d'', ''X-1000'', [], [], ''120'', []],
      [''2'', ''d'', ''X-1500'', [], [], ''150'', ''90'']]) ''X'' = None \<and>
   price_per_mm (rates_1000 double_ops [[''2'', ''d'', ''X-1500'', [], [], ''150'', ''90'']]) ''X''
     = None \<and>
   filter (row_of ''1500'' ''X'') [[''2'', ''d'', ''X-1500'', [], [], ''150'', ''90'']]
     = [[''2'', ''d'', ''X-1500'', [], [], ''150'', ''90'']] \<and>
   price_per_mm (build_rates double_ops [[''2'', ''d'', ''X-1500'', [], [], ''150'', ''90'']]) ''X''
     = Some (per_mm double_ops 1500 (double_lit 150 0)) \<and>
   cost_per_mm (build_rates double_ops [[''2'', ''d'', ''X-1500'', [], [], ''150'', ''90'']]) ''X''
     = Some (per_mm double_ops 1500 (double_lit 90 0))"
proof -
  note a = sync_fallback_gated_on_price [of double_ops
      "[[''1'', ''d'', ''X-1000'', [], [], ''120'', []],
        [''2'', ''d'', ''X-1500'', [], [], ''150'', ''90'']]" "''X''"]
  note b = sync_fallback_gated_on_price [of double_ops
      "[[''2'', ''d'', ''X-1500'', [], [], ''150'', ''90'']]" "''X''"
      "[''2'', ''d'', ''X-1500'', [], [], ''150'', ''90'']"]
  have ha: "price_per_mm (rates_1000 double_ops
     [[''1'', ''d'', ''X-1000'', [], [], ''120'', []],
      [''2'', ''d'', ''X-1500'', [], [], ''150'', ''90'']]) ''X'' \<noteq> None"
    by (simp only: eval_rates_a(1)) simp
  from a ha have "cost_per_mm (build_rates double_ops
     [[''1'', ''d'', ''X-1000'', [], [], ''120'', []],
      [''2'', ''d'', ''X-1500'', [], [], ''150'', ''90'']]) ''X''
    = cost_per_mm (rates_1000 double_ops
     [[''1'', ''d'', ''X-1000'', [], [], ''120'', []],
      [''2'', ''d'', ''X-1500'', [], [], ''150'', ''90'']]) ''X''"
    by blast
  then have 1: "cost_per_mm (build_rates double_ops
     [[''1'', ''d'', ''X-1000'', [], [], ''120'', []],
      [''2'', ''d'', ''X-1500'', [], [], ''150'', ''90'']]) ''X'' = None"
    by (simp only: eval_rates_a(2))
  have hb: "price_per_mm (rates_1000 double_ops
        [[''2'', ''d'', ''X-1500'', [], [], ''150'', ''90'']]) ''X'' = None \<and>
      filter (row_of ''1500'' ''X'') [[''2'', ''d'', ''X-1500'', [], [], ''150'', ''90'']]
        = [[''2'', ''d'', ''X-1500'', [], [], ''150'', ''90'']]"
    using eval_rates_b(1,2) by (rule conjI)
  from b hb have c: "price_per_mm (build_rates double_ops
        [[''2'', ''d'', ''X-1500'', [], [], ''150'', ''90'']]) ''X''
       = map_option (per_mm double_ops 1500)
           (price_of double_ops [''2'', ''d'', ''X-1500'', [], [], ''150'', ''90'']) \<and>
      cost_per_mm (build_rates double_ops
        [[''2'', ''d'', ''X-1500'', [], [], ''150'', ''90'']]) ''X''
       = (case cost_of double_ops [''2'', ''d'', ''X-1500'', [], [], ''150'', ''90''] of
            None \<Rightarrow> cost_per_mm (rates_1000 double_ops
              [[''2'', ''d'', ''X-1500'', [], [], ''150'', ''90'']]) ''X''
          | Some c \<Rightarrow> Some (per_mm double_ops 1500 c))"
    by blast
  from c have 2: "price_per_mm (build_rates double_ops
      [[''2'', ''d'', ''X-1500'', [], [], ''150'', ''90'']]) ''X''
     = Some (per_mm double_ops 1500 (double_lit 150 0))"
    and 3: "cost_per_mm (build_rates double_ops
      [[''2'', ''d'', ''X-1500'', [], [], ''150'', ''90'']]) ''X''
     = Some (per_mm double_ops 1500 (double_lit 90 0))"
    by (simp_all only: eval_rates_b(3,4) option.case option.map)
  have 0: "price_per_mm (rates_1000 double_ops
     [[''1'', ''d'', ''X-1000'', [], [], ''120'', []],
      [''2'', ''d'', ''X-1500'', [], [], ''150'', ''90'']]) ''X'' \<noteq> None"
    by (simp only: eval_rates_a(1)) simp
  from 0 1 2 3 hb show ?thesis by blast
qed

section \<open>Filling a \<open>3050\<close> row in the sync pass\<close>

lemma fill_3050_row_price:
  assumes "length_token (py_strip (pad7 r ! 2)) = ''3050''"
    and "sku_base (py_strip (pad7 r ! 2)) = B"
    and "to_float ops (pad7 r ! 5) = None"
    and "price_per_mm st B = Some rate"
  shows "fill_3050_row ops st r ! 5 = scaled_3050 ops rate"
proof -
  have len: "7 \<le> length (pad7 r)" by (rule length_pad7)
  have "length_token [] \<noteq> ''3050''" by (simp add: length_token_def)
  with assms(1) have ne: "py_strip (pad7 r ! 2) \<noteq> []" by auto
  from len have l2: "2 < length (pad7 r)" and l5: "5 < length (pad7 r)" by simp_all
  show ?thesis
    using assms ne l2 l5
    by (auto simp: fill_3050_row_def Let_def split: option.splits)
qed

lemma eval_366:
  "scaled_3050 double_ops (per_mm double_ops 1000 (double_lit 120 0)) = ''366.00''"
  by code_simp

lemma eval_305:
  "scaled_3050 double_ops (per_mm double_ops 1500 (double_lit 150 0)) = ''305.00''"
  by code_simp

text \<open>
  \<open>float\<close> removes the no-break space and NEL at the ends of a string, but not the unit
  separator U+001F: a price field made of that separator, \<open>120\<close> and a no-break space is no
  number, and the \<open>-1000\<close> row that holds it gives its base no rate.
\<close>

lemma eval_float_blanks:
  "to_float double_ops (CHR 0x1F # ''120'' @ [CHR 0xA0]) = None"
  "to_float double_ops (CHR 0x85 # ''120'' @ [CHR 0xA0]) = Some (double_lit 120 0)"
  "main double_ops
     [[''1'', ''d'', ''X-1000'', [], [], CHR 0x1F # ''120'' @ [CHR 0xA0], []],
      [''3'', ''d'', ''X-3050'']] ! 1 ! 5 = []"
  by code_simp+

text \<open>
  C7. In the sync pass, with IEEE doubles: take a \<open>-3050\<close> row of base \<open>B\<close> whose price field
  is blank or, more generally, does not parse. If a \<open>-1000\<close> row of \<open>B\<close> has the price 120 (and every \<open>-1000\<close> row of \<open>B\<close>
  with a numeric price has that price), the row is written with the price \<open>366.00\<close>,
  whether or not a \<open>-1500\<close> row exists. If no \<open>-1000\<close> row of \<open>B\<close> has a numeric price and a
  \<open>-1500\<close> row of \<open>B\<close> has the price 150 (and every \<open>-1500\<close> row of \<open>B\<close> with a numeric price
  has that price), the row is written with the price \<open>305.00\<close>.
\<close>

theorem sync_fills_3050_price:
  assumes "rows = read_csv_rows csv_rows" and "i < length rows"
    and "length_token (py_strip (pad7 (rows ! i) ! 2)) = ''3050''"
    and "sku_base (py_strip (pad7 (rows ! i) ! 2)) = B"
    and "to_float double_ops (pad7 (rows ! i) ! 5) = None"
  shows
    "((\<exists>r \<in> set rows. row_of ''1000'' B r \<and> price_of double_ops r = Some (double_lit 120 0)) \<and>
      (\<forall>r \<in> set rows. row_of ''1000'' B r \<longrightarrow>
          price_of double_ops r = None \<or> price_of double_ops r = Some (double_lit 120 0))
      \<longrightarrow> main double_ops csv_rows ! i ! 5 = ''366.00'') \<and>
     ((\<forall>r \<in> set rows. row_of ''1000'' B r \<longrightarrow> price_of double_ops r = None) \<and>
      (\<exists>r \<in> set rows. row_of ''1500'' B r \<and> price_of double_ops r = Some (double_lit 150 0)) \<and>
      (\<forall>r \<in> set rows. row_of ''1500'' B r \<longrightarrow>
          price_of double_ops r = None \<or> price_of double_ops r = Some (double_lit 150 0))
      \<longrightarrow> main double_ops csv_rows ! i ! 5 = ''305.00'')"
proof (intro conjI impI)
  let ?st = "build_rates double_ops rows"
  have nth: "main double_ops csv_rows ! i = fill_3050_row double_ops ?st (rows ! i)"
    using assms(1,2) main_nth [of i csv_rows double_ops] by simp
  {
    assume h: "(\<exists>r \<in> set rows. row_of ''1000'' B r \<and> price_of double_ops r = Some (double_lit 120 0)) \<and>
      (\<forall>r \<in> set rows. row_of ''1000'' B r \<longrightarrow>
          price_of double_ops r = None \<or> price_of double_ops r = Some (double_lit 120 0))"
    then have ex: "\<exists>r \<in> set rows. row_of ''1000'' B r \<and> price_of double_ops r \<noteq> None" by auto
    from h have "price_per_mm (rates_1000 double_ops rows) B
        = Some (per_mm double_ops 1000 (double_lit 120 0))"
      unfolding rates_1000_def
      using loop_1000_price_value [of rows B double_ops "double_lit 120 0" rates_init] ex
      by simp
    moreover from this have "price_per_mm ?st B = price_per_mm (rates_1000 double_ops rows) B"
      using loop_1500_kept [of "rates_1000 double_ops rows" B rows double_ops]
      by (simp add: build_rates_eq)
    ultimately have "price_per_mm ?st B = Some (per_mm double_ops 1000 (double_lit 120 0))"
      by simp
    from fill_3050_row_price [OF assms(3,4,5) this]
    show "main double_ops csv_rows ! i ! 5 = ''366.00''"
      by (simp add: nth eval_366)
  }
  {
    assume h: "(\<forall>r \<in> set rows. row_of ''1000'' B r \<longrightarrow> price_of double_ops r = None) \<and>
      (\<exists>r \<in> set rows. row_of ''1500'' B r \<and> price_of double_ops r = Some (double_lit 150 0)) \<and>
      (\<forall>r \<in> set rows. row_of ''1500'' B r \<longrightarrow>
          price_of double_ops r = None \<or> price_of double_ops r = Some (double_lit 150 0))"
    then have n: "\<not> (\<exists>r \<in> set rows. row_of ''1000'' B r \<and> price_of double_ops r \<noteq> None)"
      by auto
    have iff: "price_per_mm (rates_1000 double_ops rows) B \<noteq> None \<longleftrightarrow>
        (\<exists>r \<in> set rows. row_of ''1000'' B r \<and> price_of double_ops r \<noteq> None)"
      unfolding rates_1000_def loop_1000_price_dom by (simp add: rates_init_def)
    have none: "price_per_mm (rates_1000 double_ops rows) B = None"
    proof (rule ccontr)
      assume a: "price_per_mm (rates_1000 double_ops rows) B \<noteq> None"
      from n iffD1 [OF iff a] show False by (rule notE)
    qed
    from h have ex: "\<exists>r \<in> set rows. row_of ''1500'' B r \<and> price_of double_ops r \<noteq> None"
      and all: "\<forall>r \<in> set rows. row_of ''1500'' B r \<longrightarrow>
          price_of double_ops r = None \<or> price_of double_ops r = Some (double_lit 150 0)"
      by auto
    from loop_1500_price_value [OF none all] ex
    have "price_per_mm ?st B = Some (per_mm double_ops 1500 (double_lit 150 0))"
      by (simp add: build_rates_eq)
    from fill_3050_row_price [OF assms(3,4,5) this]
    show "main double_ops csv_rows ! i ! 5 = ''305.00''"
      by (simp add: nth eval_305)
  }
qed

lemma eval_sync_target:
  "length_token (py_strip (pad7 [''3'', ''d'', ''X-3050''] ! 2)) = ''3050''"
  "sku_base (py_strip (pad7 [''3'', ''d'', ''X-3050''] ! 2)) = ''X''"
  "to_float double_ops (pad7 [''3'', ''d'', ''X-3050''] ! 5) = None"
  by code_simp+

lemma eval_sync_a:
  "read_csv_rows [[''1'', ''d'', ''X-1000'', [], [], ''120'', []], [''3'', ''d'', ''X-3050'']]
     = [[''1'', ''d'', ''X-1000'', [], [], ''120'', []], [''3'', ''d'', ''X-3050'']]"
  "row_of ''1000'' ''X'' [''1'', ''d'', ''X-1000'', [], [], ''120'', []]"
  "price_of double_ops [''1'', ''d'', ''X-1000'', [], [], ''120'', []] = Some (double_lit 120 0)"
  "\<not> row_of ''1000'' ''X'' [''3'', ''d'', ''X-3050'']"
  by code_simp+

lemma eval_sync_b:
  "read_csv_rows [[''2'', ''d'', ''X-1500'', [], [], ''150''], [''3'', ''d'', ''X-3050'']]
     = [[''2'', ''d'', ''X-1500'', [], [], ''150''], [''3'', ''d'', ''X-3050'']]"
  "row_of ''1500'' ''X'' [''2'', ''d'', ''X-1500'', [], [], ''150'']"
  "price_of double_ops [''2'', ''d'', ''X-1500'', [], [], ''150''] = Some (double_lit 150 0)"
  "\<not> row_of ''1000'' ''X'' [''2'', ''d'', ''X-1500'', [], [], ''150'']"
  "\<not> row_of ''1500'' ''X'' [''3'', ''d'', ''X-3050'']"
  by code_simp+

theorem sync_fills_3050_price_witness:
  "to_float double_ops (pad7 [''3'', ''d'', ''X-3050''] ! 5) = None \<and>
   price_of double_ops [''1'', ''d'', ''X-1000'', [], [], ''120'', []] = Some (double_lit 120 0) \<and>
   main double_ops [[''1'', ''d'', ''X-1000'', [], [], ''120'', []], [''3'', ''d'', ''X-3050'']]
     ! 1 ! 5 = ''366.00'' \<and>
   price_of double_ops [''2'', ''d'', ''X-1500'', [], [], ''150''] = Some (double_lit 150 0) \<and>
   main double_ops [[''2'', ''d'', ''X-1500'', [], [], ''150''], [''3'', ''d'', ''X-3050'']]
     ! 1 ! 5 = ''305.00''"
proof -
  let ?a = "[[''1'', ''d'', ''X-1000'', [], [], ''120'', []], [''3'', ''d'', ''X-3050'']]"
  let ?b = "[[''2'', ''d'', ''X-1500'', [], [], ''150''], [''3'', ''d'', ''X-3050'']]"
  have ta: "length_token (py_strip (pad7 (?a ! 1) ! 2)) = ''3050''"
    "sku_base (py_strip (pad7 (?a ! 1) ! 2)) = ''X''"
    "to_float double_ops (pad7 (?a ! 1) ! 5) = None"
    by (simp_all add: eval_sync_target)
  have tb: "length_token (py_strip (pad7 (?b ! 1) ! 2)) = ''3050''"
    "sku_base (py_strip (pad7 (?b ! 1) ! 2)) = ''X''"
    "to_float double_ops (pad7 (?b ! 1) ! 5) = None"
    by (simp_all add: eval_sync_target)
  have ha: "(\<exists>r \<in> set ?a. row_of ''1000'' ''X'' r \<and> price_of double_ops r = Some (double_lit 120 0)) \<and>
      (\<forall>r \<in> set ?a. row_of ''1000'' ''X'' r \<longrightarrow>
          price_of double_ops r = None \<or> price_of double_ops r = Some (double_lit 120 0))"
    by (simp add: eval_sync_a)
  have hb: "(\<forall>r \<in> set ?b. row_of ''1000'' ''X'' r \<longrightarrow> price_of double_ops r = None) \<and>
      (\<exists>r \<in> set ?b. row_of ''1500'' ''X'' r \<and> price_of double_ops r = Some (double_lit 150 0)) \<and>
      (\<forall>r \<in> set ?b. row_of ''1500'' ''X'' r \<longrightarrow>
          price_of double_ops r = None \<or> price_of double_ops r = Some (double_lit 150 0))"
    by (simp add: eval_sync_b eval_sync_a(4))
  have ia: "1 < length ?a" and ib: "1 < length ?b" by simp_all
  have a: "main double_ops ?a ! 1 ! 5 = ''366.00''"
    by (rule sync_fills_3050_price [OF eval_sync_a(1) [symmetric] ia ta,
          THEN conjunct1, THEN mp, OF ha])
  have b: "main double_ops ?b ! 1 ! 5 = ''305.00''"
    by (rule sync_fills_3050_price [OF eval_sync_b(1) [symmetric] ib tb,
          THEN conjunct2, THEN mp, OF hb])
  from a b show ?thesis
    by (simp only: eval_sync_target eval_sync_a eval_sync_b simp_thms)
qed

section \<open>What the backfill writes into a row\<close>

lemma price_map_step_apply:
  "price_map_step ops m row k =
     (if price_source ops k row then float_of_string ops (price_field row) else m k)"
  by (auto simp: price_map_step_def price_source_def is_numeric_def Let_def split: option.splits)

lemma price_map_value:
  assumes "\<forall>row \<in> set rd. price_source ops k row \<longrightarrow> float_of_string ops (price_field row) = Some v"
  shows "foldl (price_map_step ops) m rd k =
     (if \<exists>row \<in> set rd. price_source ops k row then Some v else m k)"
  using assms
proof (induction rd arbitrary: m)
  case Nil
  then show ?case by simp
next
  case (Cons row rd)
  from Cons.prems have rest:
    "\<forall>row \<in> set rd. price_source ops k row \<longrightarrow> float_of_string ops (price_field row) = Some v"
    and hd: "price_source ops k row \<longrightarrow> float_of_string ops (price_field row) = Some v"
    by simp_all
  show ?case
    unfolding foldl_Cons Cons.IH [OF rest]
    using hd by (auto simp: price_map_step_apply)
qed

lemma fill_row_update:
  assumes "fill_row ops pm i row st = Inr st'"
  shows "reader st' = (case row_update ops pm row of
                         None \<Rightarrow> reader st
                       | Some r' \<Rightarrow> (reader st)[i := r']) \<and>
         updated st' = updated st + (if row_update ops pm row = None then 0 else 1)"
  using assms
  by (auto simp: fill_row_def row_update_def ends_3050_def Let_def
      split: if_splits option.splits sum.splits)

lemma fill_rows_exact:
  assumes "fill_rows ops pm j rows st = Inr st'" and "j + length rows \<le> length (reader st)"
  shows "length (reader st') = length (reader st) \<and>
    (\<forall>k < length (reader st). reader st' ! k =
       (if j \<le> k \<and> k < j + length rows
        then (case row_update ops pm (rows ! (k - j)) of None \<Rightarrow> reader st ! k | Some r' \<Rightarrow> r')
        else reader st ! k)) \<and>
    updated st' = updated st + length (filter (\<lambda>r. row_update ops pm r \<noteq> None) rows)"
  using assms
proof (induction rows arbitrary: j st)
  case Nil
  then show ?case by auto
next
  case (Cons row rest)
  from Cons.prems(1) obtain st1 where 1: "fill_row ops pm j row st = Inr st1"
    and 2: "fill_rows ops pm (Suc j) rest st1 = Inr st'"
    by (auto split: sum.splits)
  note u = fill_row_update [OF 1]
  from u have len1: "length (reader st1) = length (reader st)"
    by (auto split: option.splits)
  with Cons.prems(2) have b: "Suc j + length rest \<le> length (reader st1)" by simp
  note ih = Cons.IH [OF 2 b]
  from Cons.prems(2) have jlt: "j < length (reader st)" by simp
  have at: "reader st1 ! k =
      (if k = j then (case row_update ops pm row of None \<Rightarrow> reader st ! k | Some r' \<Rightarrow> r')
       else reader st ! k)" if "k < length (reader st)" for k
    using u that by (auto split: option.splits)
  have frame: "reader st' ! k =
       (if j \<le> k \<and> k < j + length (row # rest)
        then (case row_update ops pm ((row # rest) ! (k - j)) of
                None \<Rightarrow> reader st ! k | Some r' \<Rightarrow> r')
        else reader st ! k)" if k: "k < length (reader st)" for k
  proof (cases "k = j")
    case True
    with ih k len1 have "reader st' ! k = reader st1 ! k" by simp
    with True at [OF k] show ?thesis by simp
  next
    case False
    from ih k len1 have "reader st' ! k =
       (if Suc j \<le> k \<and> k < Suc j + length rest
        then (case row_update ops pm (rest ! (k - Suc j)) of
                None \<Rightarrow> reader st1 ! k | Some r' \<Rightarrow> r')
        else reader st1 ! k)" by simp
    moreover have "(row # rest) ! (k - j) = rest ! (k - Suc j)" if "Suc j \<le> k"
      using that by (simp add: nth_Cons')
    ultimately show ?thesis using False at [OF k]
      by (auto simp: less_Suc_eq_le split: option.splits)
  qed
  from ih u have cnt: "updated st' =
      updated st + length (filter (\<lambda>r. row_update ops pm r \<noteq> None) (row # rest))"
    by simp
  from ih len1 frame cnt show ?case by simp
qed

lemma prefix_3050_no_overlap:
  assumes "prefix ''-3050'' (w @ ''-3050'')" and "w \<noteq> []"
  shows "prefix ''-3050'' w"
proof -
  from assms(1) obtain zs where eq: "w @ ''-3050'' = ''-3050'' @ zs" by (auto simp: prefix_def)
  show ?thesis
  proof (cases w)
    case Nil
    with assms(2) show ?thesis by simp
  next
    case a: (Cons c1 w1)
    show ?thesis
    proof (cases w1)
      case Nil
      with a eq show ?thesis by simp
    next
      case b: (Cons c2 w2)
      show ?thesis
      proof (cases w2)
        case Nil
        with a b eq show ?thesis by simp
      next
        case c: (Cons c3 w3)
        show ?thesis
        proof (cases w3)
          case Nil
          with a b c eq show ?thesis by simp
        next
          case d: (Cons c4 w4)
          show ?thesis
          proof (cases w4)
            case Nil
            with a b c d eq show ?thesis by simp
          next
            case e: (Cons c5 w5)
            with a b c d eq show ?thesis by simp
          qed
        qed
      qed
    qed
  qed
qed

lemma py_replace_suffix_3050:
  "\<not> py_contains ''-3050'' b \<Longrightarrow> py_replace ''-3050'' ''-1000'' (b @ ''-3050'') = b @ ''-1000''"
proof (induction b)
  case Nil
  then show ?case by simp
next
  case (Cons x b)
  from Cons.prems have np: "\<not> prefix ''-3050'' (x # b)" and nc: "\<not> py_contains ''-3050'' b"
    by simp_all
  from np have "\<not> prefix ''-3050'' ((x # b) @ ''-3050'')"
    using prefix_3050_no_overlap [of "x # b"] by blast
  then have "\<not> prefix ''-3050'' (x # (b @ ''-3050''))"
    by (simp only: append_Cons simp_thms)
  then have c: "\<not> (''-3050'' \<noteq> [] \<and> prefix ''-3050'' (x # (b @ ''-3050'')))"
    by blast
  have "py_replace ''-3050'' ''-1000'' (x # (b @ ''-3050''))
      = x # py_replace ''-3050'' ''-1000'' (b @ ''-3050'')"
    by (simp only: py_replace.simps(2) c if_False)
  then have "py_replace ''-3050'' ''-1000'' ((x # b) @ ''-3050'')
      = x # py_replace ''-3050'' ''-1000'' (b @ ''-3050'')"
    by (simp only: append_Cons)
  with Cons.IH [OF nc] show ?case by simp
qed

lemma eval_backfill_numbers:
  "float_of_string double_ops ''100.00'' = Some (double_lit 100 0)"
  "round2 double_ops (float_mul double_ops (double_lit 100 0) (float_lit double_ops 305 (- 2)))
     = Inr ''305.00''"
  "is_numeric double_ops ''250.00''"
  "\<not> is_numeric double_ops []"
  "py_endswith (b @ ''-1000'') ''-1000''"
  "py_endswith (b @ ''-3050'') ''-3050''"
  by (code_simp, code_simp, code_simp, code_simp) (simp_all add: py_endswith_def suffix_def)

lemma pad6_update_fields:
  "length ((pad6 r)[5 := s]) = max 6 (length r)"
  "(pad6 r)[5 := s] ! 5 = s"
  "j < max 6 (length r) \<Longrightarrow> j \<noteq> 5 \<Longrightarrow> (pad6 r)[5 := s] ! j = field_at r j"
  by (auto simp: pad6_def field_at_def nth_append)

text \<open>
  With IEEE doubles, in a run that ends normally: let row \<open>i\<close> have the SKU \<open>b-3050\<close>, where
  \<open>-3050\<close> does not occur in \<open>b\<close>, and a blank price; let a row with the SKU \<open>b-1000\<close> have the
  price field \<open>100.00\<close>, and let every row with that SKU and a numeric price have the value
  100. Then the file is written with as many rows as were read; row \<open>i\<close> is written with
  the price \<open>305.00\<close> at index 5, with six fields or as many as it had, and with every other
  field as it was (a field it did not have being empty); and every row whose price field
  is numeric is written as it was.
\<close>

theorem backfill_scales_1000_price:
  assumes "fill_3050_prices double_ops rd = Inr res"
    and "i < length rd" and "3 \<le> length (rd ! i)"
    and "py_strip (rd ! i ! 2) = b @ ''-3050''" and "\<not> py_contains ''-3050'' b"
    and "price_field (rd ! i) = []"
    and "\<exists>r \<in> set rd. 3 \<le> length r \<and> py_strip (r ! 2) = b @ ''-1000'' \<and> price_field r = ''100.00''"
    and "\<forall>r \<in> set rd. 3 \<le> length r \<and> py_strip (r ! 2) = b @ ''-1000''
           \<and> is_numeric double_ops (price_field r)
           \<longrightarrow> float_of_string double_ops (price_field r) = Some (double_lit 100 0)"
  shows "\<exists>rows'. written res = Some rows' \<and> length rows' = length rd \<and>
           length (rows' ! i) = max 6 (length (rd ! i)) \<and>
           rows' ! i ! 5 = ''305.00'' \<and>
           (\<forall>j < length (rows' ! i). j \<noteq> 5 \<longrightarrow> rows' ! i ! j = field_at (rd ! i) j) \<and>
           (\<forall>k < length rd. is_numeric double_ops (price_field (rd ! k)) \<longrightarrow> rows' ! k = rd ! k)"
proof -
  let ?pm = "price_map double_ops rd"
  let ?st0 = "\<lparr>reader = rd, updated = 0, missing_source = []\<rparr>"
  let ?k = "b @ ''-1000''"
  from assms(1) obtain st where run: "fill_rows double_ops ?pm 0 rd ?st0 = Inr st"
    and res: "res = \<lparr>written = (if updated st > 0 then Some (reader st) else None),
               count_updated = updated st, unresolved = missing_source st\<rparr>"
    by (auto simp: fill_3050_prices_def split: sum.splits)
  have "0 + length rd \<le> length (reader ?st0)" by simp
  from fill_rows_exact [OF run this]
  have len: "length (reader st) = length rd"
    and at: "\<And>k. k < length rd \<Longrightarrow> reader st ! k =
        (case row_update double_ops ?pm (rd ! k) of None \<Rightarrow> rd ! k | Some r' \<Rightarrow> r')"
    and cnt: "updated st = length (filter (\<lambda>r. row_update double_ops ?pm r \<noteq> None) rd)"
    by (simp_all cong: option.case_cong)
  have n100: "is_numeric double_ops ''100.00''"
    by (simp add: is_numeric_def eval_backfill_numbers(1))
  from assms(7) obtain r0 where "r0 \<in> set rd" "3 \<le> length r0"
    "py_strip (r0 ! 2) = ?k" "price_field r0 = ''100.00''" by blast
  then have src: "\<exists>row \<in> set rd. price_source double_ops ?k row"
    using n100 by (intro bexI [of _ r0]) (simp_all add: price_source_def eval_backfill_numbers)
  have val: "\<forall>row \<in> set rd. price_source double_ops ?k row
      \<longrightarrow> float_of_string double_ops (price_field row) = Some (double_lit 100 0)"
    using assms(8) by (auto simp: price_source_def)
  have pm: "?pm ?k = Some (double_lit 100 0)"
    unfolding price_map_def price_map_value [OF val] using src by simp
  have e: "ends_3050 (rd ! i)"
    using assms(3,4) by (simp add: ends_3050_def eval_backfill_numbers)
  have upd: "row_update double_ops ?pm (rd ! i) = Some ((pad6 (rd ! i))[5 := ''305.00''])"
    using e assms(4,6) pm py_replace_suffix_3050 [OF assms(5)]
    by (simp add: row_update_def eval_backfill_numbers)
  from upd assms(2) have "rd ! i \<in> set (filter (\<lambda>r. row_update double_ops ?pm r \<noteq> None) rd)"
    by simp
  then have "filter (\<lambda>r. row_update double_ops ?pm r \<noteq> None) rd \<noteq> []"
    by (rule in_set_nonempty)
  with cnt have pos: "0 < updated st" by simp
  have same: "reader st ! k = rd ! k"
    if "k < length rd" "is_numeric double_ops (price_field (rd ! k))" for k
  proof -
    from that(2) have "row_update double_ops ?pm (rd ! k) = None"
      by (simp add: row_update_def)
    with at [OF that(1)] show ?thesis by simp
  qed
  from at [OF assms(2)] upd have row: "reader st ! i = (pad6 (rd ! i))[5 := ''305.00'']" by simp
  have f1: "length (reader st ! i) = max 6 (length (rd ! i))"
    and f2: "reader st ! i ! 5 = ''305.00''"
    unfolding row by (simp_all only: pad6_update_fields)
  have f3: "\<forall>j < length (reader st ! i). j \<noteq> 5 \<longrightarrow> reader st ! i ! j = field_at (rd ! i) j"
    unfolding row using pad6_update_fields(3) [of _ "rd ! i" "''305.00''"]
    by (simp only: pad6_update_fields(1)) blast
  from pos have w: "written res = Some (reader st)" by (simp add: res)
  from w len f1 f2 f3 same show ?thesis by blast
qed

lemma eval_backfill_table:
  "fill_3050_prices double_ops
     [[''1'', ''d'', ''X-1000'', [], [], ''100.00''],
      [''2'', ''d'', ''X-3050''],
      [''3'', ''e'', ''Y-3050'', [], [], ''250.00'']]
   = Inr \<lparr>written = Some [[''1'', ''d'', ''X-1000'', [], [], ''100.00''],
                           [''2'', ''d'', ''X-3050'', [], [], ''305.00''],
                           [''3'', ''e'', ''Y-3050'', [], [], ''250.00'']],
          count_updated = 1, unresolved = []\<rparr>"
  by code_simp

lemma eval_backfill_rows:
  "py_strip ([''2'', ''d'', ''X-3050''] ! 2) = ''X'' @ ''-3050''"
  "\<not> py_contains ''-3050'' ''X''"
  "price_field [''2'', ''d'', ''X-3050''] = []"
  "py_strip ([''1'', ''d'', ''X-1000'', [], [], ''100.00''] ! 2) = ''X'' @ ''-1000''"
  "price_field [''1'', ''d'', ''X-1000'', [], [], ''100.00''] = ''100.00''"
  "py_strip ([''2'', ''d'', ''X-3050''] ! 2) \<noteq> ''X'' @ ''-1000''"
  "py_strip ([''3'', ''e'', ''Y-3050'', [], [], ''250.00''] ! 2) \<noteq> ''X'' @ ''-1000''"
  "price_field [''3'', ''e'', ''Y-3050'', [], [], ''250.00''] = ''250.00''"
  by code_simp+

theorem backfill_scales_1000_price_witness:
  "fill_3050_prices double_ops
     [[''1'', ''d'', ''X-1000'', [], [], ''100.00''],
      [''2'', ''d'', ''X-3050''],
      [''3'', ''e'', ''Y-3050'', [], [], ''250.00'']]
   = Inr \<lparr>written = Some [[''1'', ''d'', ''X-1000'', [], [], ''100.00''],
                           [''2'', ''d'', ''X-3050'', [], [], ''305.00''],
                           [''3'', ''e'', ''Y-3050'', [], [], ''250.00'']],
          count_updated = 1, unresolved = []\<rparr> \<and>
   price_field [''2'', ''d'', ''X-3050''] = [] \<and>
   price_field [''1'', ''d'', ''X-1000'', [], [], ''100.00''] = ''100.00'' \<and>
   is_numeric double_ops (price_field [''3'', ''e'', ''Y-3050'', [], [], ''250.00'']) \<and>
   [[''1'', ''d'', ''X-1000'', [], [], ''100.00''],
    [''2'', ''d'', ''X-3050'', [], [], ''305.00''],
    [''3'', ''e'', ''Y-3050'', [], [], ''250.00'']] ! 1 ! 5 = ''305.00'' \<and>
   [[''1'', ''d'', ''X-1000'', [], [], ''100.00''],
    [''2'', ''d'', ''X-3050'', [], [], ''305.00''],
    [''3'', ''e'', ''Y-3050'', [], [], ''250.00'']] ! 2 = [''3'', ''e'', ''Y-3050'', [], [], ''250.00'']"
proof -
  let ?rd = "[[''1'', ''d'', ''X-1000'', [], [], ''100.00''],
      [''2'', ''d'', ''X-3050''],
      [''3'', ''e'', ''Y-3050'', [], [], ''250.00'']]"
  let ?out = "[[''1'', ''d'', ''X-1000'', [], [], ''100.00''],
      [''2'', ''d'', ''X-3050'', [], [], ''305.00''],
      [''3'', ''e'', ''Y-3050'', [], [], ''250.00'']]"
  have i: "1 < length ?rd" "3 \<le> length (?rd ! 1)" by simp_all
  have s: "py_strip (?rd ! 1 ! 2) = ''X'' @ ''-3050''" "price_field (?rd ! 1) = []"
    using eval_backfill_rows(1,3) by simp_all
  have ex: "\<exists>r \<in> set ?rd. 3 \<le> length r \<and> py_strip (r ! 2) = ''X'' @ ''-1000''
      \<and> price_field r = ''100.00''"
    using eval_backfill_rows(4,5) by simp
  have all: "\<forall>r \<in> set ?rd. 3 \<le> length r \<and> py_strip (r ! 2) = ''X'' @ ''-1000''
           \<and> is_numeric double_ops (price_field r)
           \<longrightarrow> float_of_string double_ops (price_field r) = Some (double_lit 100 0)"
    using eval_backfill_rows(5,6,7) eval_backfill_numbers(1) by simp
  have num: "is_numeric double_ops (price_field (?rd ! 2))"
    using eval_backfill_rows(8) eval_backfill_numbers(3) by simp
  from backfill_scales_1000_price [OF eval_backfill_table i s(1) eval_backfill_rows(2) s(2) ex all]
  obtain rows' where w: "Some ?out = Some rows'"
    and r1: "rows' ! 1 ! 5 = ''305.00''"
    and r2: "\<forall>k < length ?rd. is_numeric double_ops (price_field (?rd ! k))
              \<longrightarrow> rows' ! k = ?rd ! k"
    by auto
  from w have eq: "rows' = ?out" by simp
  have k: "2 < length ?rd" by simp
  from r2 k num have "rows' ! 2 = ?rd ! 2" by blast
  then have r2': "?out ! 2 = [''3'', ''e'', ''Y-3050'', [], [], ''250.00'']"
    unfolding eq by simp
  from r1 have r1': "?out ! 1 ! 5 = ''305.00''" unfolding eq .
  from num have num': "is_numeric double_ops (price_field [''3'', ''e'', ''Y-3050'', [], [], ''250.00''])"
    by simp
  from eval_backfill_table eval_backfill_rows(3,5) num' r1' r2' show ?thesis by blast
qed

text \<open>
  C6. The statement above needs a base without \<open>-3050\<close> in it. In the table below the base
  \<open>LR-3050-S\<close> has a \<open>-1000\<close> row with the price field \<open>100.00\<close> and a \<open>-3050\<close> row with a blank
  price. \<open>sku.replace("-3050", "-1000")\<close> turns the SKU \<open>LR-3050-S-3050\<close> into
  \<open>LR-1000-S-1000\<close>, which is no key of \<open>price_map\<close>: the row keeps its blank price and its
  SKU is reported as unresolved, while the row \<open>X-3050\<close> of the same table is set to \<open>305.00\<close>.
\<close>

theorem backfill_misses_3050_base:
  "ends_3050 [''4'', ''e'', ''LR-3050-S-3050'', [], [], []] \<and>
   price_field [''4'', ''e'', ''LR-3050-S-3050'', [], [], []] = [] \<and>
   py_strip ([''3'', ''e'', ''LR-3050-S-1000'', [], [], ''100.00''] ! 2) = ''LR-3050-S'' @ ''-1000'' \<and>
   price_field [''3'', ''e'', ''LR-3050-S-1000'', [], [], ''100.00''] = ''100.00'' \<and>
   py_replace ''-3050'' ''-1000'' ''LR-3050-S-3050'' = ''LR-1000-S-1000'' \<and>
   fill_3050_prices double_ops
     [[''1'', ''d'', ''X-1000'', [], [], ''100.00''],
      [''2'', ''d'', ''X-3050'', [], [], []],
      [''3'', ''e'', ''LR-3050-S-1000'', [], [], ''100.00''],
      [''4'', ''e'', ''LR-3050-S-3050'', [], [], []]]
   = Inr \<lparr>written = Some [[''1'', ''d'', ''X-1000'', [], [], ''100.00''],
                           [''2'', ''d'', ''X-3050'', [], [], ''305.00''],
                           [''3'', ''e'', ''LR-3050-S-1000'', [], [], ''100.00''],
                           [''4'', ''e'', ''LR-3050-S-3050'', [], [], []]],
          count_updated = 1, unresolved = [''LR-3050-S-3050'']\<rparr>"
  by code_simp

section \<open>The two key utilities compared\<close>

text \<open>
  C10 (as amended). On a SKU with at least one hyphen both utilities return all tokens but
  the last, joined by hyphens. On a hyphen-free SKU \<open>make_key_from_sku\<close> returns the empty
  string and \<open>sku_base\<close> returns the SKU itself, so the two differ exactly when the
  hyphen-free SKU is not empty.
\<close>

theorem key_utilities_compared:
  "(CHR ''-'' \<in> set sku \<longrightarrow>
      make_key_from_sku sku = py_join ''-'' (butlast (py_split CHR ''-'' sku)) \<and>
      sku_base sku = py_join ''-'' (butlast (py_split CHR ''-'' sku))) \<and>
   (CHR ''-'' \<notin> set sku \<longrightarrow> make_key_from_sku sku = [] \<and> sku_base sku = sku) \<and>
   (CHR ''-'' \<notin> set sku \<and> sku \<noteq> [] \<longrightarrow> make_key_from_sku sku \<noteq> sku_base sku)"
proof -
  have a: "make_key_from_sku sku = py_join ''-'' (butlast (py_split CHR ''-'' sku))"
    by (simp add: make_key_from_sku_def Let_def)
  have b: "sku_base sku = py_join ''-'' (butlast (py_split CHR ''-'' sku))"
    if "CHR ''-'' \<in> set sku"
    using py_split_length [OF that] by (simp add: sku_base_def Let_def)
  have c: "make_key_from_sku sku = []" "sku_base sku = sku" if "CHR ''-'' \<notin> set sku"
    using that by (simp_all add: a sku_base_def py_split_single)
  show ?thesis
    using a b c by auto
qed

theorem key_utilities_compared_witness:
  "CHR ''-'' \<in> set ''V-20-1000'' \<and> make_key_from_sku ''V-20-1000'' = ''V-20'' \<and>
   sku_base ''V-20-1000'' = ''V-20'' \<and>
   CHR ''-'' \<notin> set ''LR2040'' \<and> ''LR2040'' \<noteq> [] \<and>
   make_key_from_sku ''LR2040'' = [] \<and> sku_base ''LR2040'' = ''LR2040'' \<and>
   make_key_from_sku ''LR2040'' \<noteq> sku_base ''LR2040''"
  using key_utilities_compared [of "''V-20-1000''"] key_utilities_compared [of "''LR2040''"]
  by simp

text \<open>
  C10 as stated fails on the empty SKU: it has no hyphen, and both utilities return the
  empty string for it.
\<close>

theorem key_utilities_empty_sku_counterexample:
  "CHR ''-'' \<notin> set '''' \<and> make_key_from_sku '''' = sku_base ''''"
  by (simp add: make_key_from_sku_def sku_base_def)

end
